theory Spec2Isabelle
  imports Complex_Main "HOL-Library.List_Lexorder"
begin

section \<open>Strings, bytes and errors\<close>

text \<open>
  A Python \<open>str\<close> is a sequence of Unicode code points, and \<open>len\<close> counts code points.
  A string is therefore a list of code points (natural numbers); \<open>ascii\<close> embeds an ASCII
  literal. With \<open>HOL-Library.List_Lexorder\<close> the order on such lists is the lexicographic
  order by code point, which is the order Python's \<open>sorted\<close> uses on strings.
\<close>

type_synonym str = "nat list"
type_synonym bytes = "nat list"

definition ascii :: "string \<Rightarrow> str" where
  "ascii s = map of_char s"

datatype py_error =
    SystemExit nat
  | KeyError str
  | TypeError
  | AttributeError
  | UnicodeEncodeError

text \<open>\<open>s.encode("utf-8")\<close>: a lone surrogate raises \<open>UnicodeEncodeError\<close> (here \<open>None\<close>).\<close>

definition utf8_char :: "nat \<Rightarrow> bytes option" where
  "utf8_char c =
     (if c < 0x80 then Some [c]
      else if c < 0x800 then Some [0xC0 + c div 64, 0x80 + c mod 64]
      else if 0xD800 \<le> c \<and> c < 0xE000 then None
      else if c < 0x10000 then
        Some [0xE0 + c div 4096, 0x80 + (c div 64) mod 64, 0x80 + c mod 64]
      else
        Some [0xF0 + c div 262144, 0x80 + (c div 4096) mod 64,
              0x80 + (c div 64) mod 64, 0x80 + c mod 64])"

fun encode_utf8 :: "str \<Rightarrow> bytes option" where
  "encode_utf8 [] = Some []"
| "encode_utf8 (c # cs) =
     (case utf8_char c of
        None \<Rightarrow> None
      | Some b \<Rightarrow> (case encode_utf8 cs of None \<Rightarrow> None | Some bs \<Rightarrow> Some (b @ bs)))"

section \<open>Configuration constants\<close>

definition MAX_CANDIDATES :: nat where "MAX_CANDIDATES = 60"
definition TOP_N :: nat where "TOP_N = 3"
definition HOURS_WINDOW :: int where "HOURS_WINDOW = 48"

section \<open>Library functions taken as parameters\<close>

text \<open>
  The program calls \<open>hashlib.sha256\<close>, \<open>dateutil.parser.parse\<close>, \<open>hmac.new\<close> and
  \<open>base64.b64encode\<close>. They are not code of the repository and are parameters of the model:
  \<^item> \<open>sha256\<close> maps a byte string to its digest, read as a big-endian number;
  \<^item> \<open>date_parse\<close> maps a timestamp string to a \<open>datetime\<close>, \<open>None\<close> when the parser raises;
  \<^item> \<open>hmac_sha256 key msg\<close> is the digest of \<open>hmac.new(key, msg, sha256)\<close>;
  \<^item> \<open>b64encode\<close> is the base64 text of a byte string.
\<close>

text \<open>
  A \<open>datetime\<close>: the wall-clock reading in microseconds since 1970-01-01T00:00:00 and the
  offset from UTC in microseconds, \<open>None\<close> for a naive value (\<open>tzinfo is None\<close>).
\<close>

record datetime =
  wall :: int
  tzoffset :: "int option"

record libs =
  sha256 :: "bytes \<Rightarrow> nat"
  date_parse :: "str \<Rightarrow> datetime option"
  hmac_sha256 :: "bytes \<Rightarrow> bytes \<Rightarrow> bytes"
  b64encode :: "bytes \<Rightarrow> str"

section \<open>Fingerprints\<close>

definition hexdigit :: "nat \<Rightarrow> nat" where
  "hexdigit d = (if d < 10 then 48 + d else 87 + d)"

fun hex_digits :: "nat \<Rightarrow> nat \<Rightarrow> str" where
  "hex_digits 0 n = []"
| "hex_digits (Suc k) n = hex_digits k (n div 16) @ [hexdigit (n mod 16)]"

text \<open>\<open>hexdigest()\<close> of a SHA-256 digest: 64 lower-case hexadecimal digits.\<close>

definition hexdigest :: "nat \<Rightarrow> str" where
  "hexdigest n = hex_digits 64 n"

text \<open>\<open>hash_link(link) = hashlib.sha256(link.encode("utf-8")).hexdigest()\<close>\<close>

definition hash_link :: "libs \<Rightarrow> str \<Rightarrow> py_error + str" where
  "hash_link L link =
     (case encode_utf8 link of
        None \<Rightarrow> Inl UnicodeEncodeError
      | Some b \<Rightarrow> Inr (hexdigest (sha256 L b)))"

section \<open>Recency filter\<close>

text \<open>
  \<open>is_recent(published_str, hours)\<close>: \<open>now\<close> is the reading of
  \<open>datetime.now(timezone.utc)\<close> in microseconds since the epoch. A naive parse result gets
  \<open>tzinfo = UTC\<close> (\<open>assume_utc\<close>). The subtraction \<open>now - pub_time\<close> of an aware
  \<open>now\<close> and a naive \<open>pub_time\<close> raises \<open>TypeError\<close> (\<open>sub_aware\<close>); any
  exception gives \<open>False\<close>.
\<close>

definition assume_utc :: "datetime \<Rightarrow> datetime" where
  "assume_utc d = (if tzoffset d = None then d\<lparr>tzoffset := Some 0\<rparr> else d)"

definition sub_aware :: "int \<Rightarrow> datetime \<Rightarrow> py_error + int" where
  "sub_aware now d =
     (case tzoffset d of
        None \<Rightarrow> Inl TypeError
      | Some off \<Rightarrow> Inr (now - (wall d - off)))"

definition timedelta_hours :: "int \<Rightarrow> int" where
  "timedelta_hours h = h * 3600 * 1000000"

definition is_recent :: "libs \<Rightarrow> int \<Rightarrow> str \<Rightarrow> int \<Rightarrow> bool" where
  "is_recent L now published_str hours =
     (case date_parse L published_str of
        None \<Rightarrow> False
      | Some pub_time \<Rightarrow>
          (case sub_aware now (assume_utc pub_time) of
             Inl err \<Rightarrow> False
           | Inr delta \<Rightarrow> delta \<le> timedelta_hours hours))"

section \<open>Fetching one feed\<close>

text \<open>
  A parsed feed entry: each field is present or absent, as \<open>entry.get(key, default)\<close>
  sees it.
\<close>

record feed_entry =
  fe_link :: "str option"
  fe_published :: "str option"
  fe_updated :: "str option"
  fe_title :: "str option"
  fe_summary :: "str option"
  fe_description :: "str option"

record candidate =
  title :: str
  link :: str
  summary :: str
  published :: str
  hash :: str

definition get_or :: "'a option \<Rightarrow> 'a \<Rightarrow> 'a" where
  "get_or v d = (case v of None \<Rightarrow> d | Some x \<Rightarrow> x)"

definition truncate_summary :: "str \<Rightarrow> str" where
  "truncate_summary s = (if length s > 500 then take 500 s @ ascii ''...'' else s)"

text \<open>
  The body of the loop over \<open>feed.entries\<close>: \<open>Skip\<close> is \<open>continue\<close>, \<open>Keep\<close> appends a
  candidate, \<open>Raises\<close> is an exception, which leaves the loop for the handler of
  \<open>fetch_single_feed\<close>. \<open>now\<close> is the clock reading when this entry is examined.
\<close>

datatype step = Skip | Keep candidate | Raises py_error

definition process_entry :: "libs \<Rightarrow> int \<Rightarrow> str set \<Rightarrow> feed_entry \<Rightarrow> step" where
  "process_entry L now sent_hashes entry =
     (let lnk = get_or (fe_link entry) [] in
      if lnk = [] then Skip
      else case hash_link L lnk of
        Inl e \<Rightarrow> Raises e
      | Inr link_hash \<Rightarrow>
          if link_hash \<in> sent_hashes then Skip
          else
            let pub = get_or (fe_published entry) (get_or (fe_updated entry) []) in
            if \<not> is_recent L now pub HOURS_WINDOW then Skip
            else
              Keep \<lparr>title = get_or (fe_title entry) [],
                    link = lnk,
                    summary = truncate_summary
                                (get_or (fe_summary entry) (get_or (fe_description entry) [])),
                    published = pub,
                    hash = link_hash\<rparr>)"

text \<open>
  The loop: \<open>clock i\<close> is the clock reading at the entry in position \<open>i\<close>. An exception ends
  the loop; the candidates appended so far are returned by the handler.
\<close>

fun feed_loop :: "libs \<Rightarrow> (nat \<Rightarrow> int) \<Rightarrow> str set \<Rightarrow> nat \<Rightarrow> feed_entry list \<Rightarrow> candidate list" where
  "feed_loop L clock sent i [] = []"
| "feed_loop L clock sent i (e # es) =
     (case process_entry L (clock i) sent e of
        Skip \<Rightarrow> feed_loop L clock sent (Suc i) es
      | Keep c \<Rightarrow> c # feed_loop L clock sent (Suc i) es
      | Raises x \<Rightarrow> [])"

text \<open>The answer of a feed source: the request or the parser failed, or a list of entries.\<close>

datatype feed_result = FetchFailed | Feed "feed_entry list"

definition fetch_single_feed ::
  "libs \<Rightarrow> (nat \<Rightarrow> int) \<Rightarrow> feed_result \<Rightarrow> str set \<Rightarrow> candidate list" where
  "fetch_single_feed L clock res sent_hashes =
     (case res of
        FetchFailed \<Rightarrow> []
      | Feed entries \<Rightarrow> feed_loop L clock sent_hashes 0 entries)"

section \<open>The dedup store\<close>

text \<open>
  The store is the file \<open>data/sent_hashes.txt\<close>: \<open>None\<close> when it does not exist, else its
  text. The file is opened in text mode, so reading translates \<open>\r\n\<close> and \<open>\r\<close> to
  \<open>\n\<close>; writing is modelled for a platform whose line separator is \<open>\n\<close>.
\<close>

fun universal_newlines :: "str \<Rightarrow> str" where
  "universal_newlines (c # d # cs) =
     (if c = 13 \<and> d = 10 then 10 # universal_newlines cs
      else if c = 13 then 10 # universal_newlines (d # cs)
      else c # universal_newlines (d # cs))"
| "universal_newlines [c] = (if c = 13 then [10] else [c])"
| "universal_newlines [] = []"

text \<open>Iterating a text file yields its lines, each with its terminating \<open>\n\<close> when it has one.\<close>

fun lines_acc :: "str \<Rightarrow> str \<Rightarrow> str list" where
  "lines_acc cur [] = (if cur = [] then [] else [cur])"
| "lines_acc cur (c # cs) =
     (if c = 10 then (cur @ [c]) # lines_acc [] cs else lines_acc (cur @ [c]) cs)"

definition file_lines :: "str \<Rightarrow> str list" where
  "file_lines t = lines_acc [] t"

text \<open>\<open>str.isspace\<close> on one code point, and \<open>str.strip()\<close>.\<close>

definition isspace :: "nat \<Rightarrow> bool" where
  "isspace c \<longleftrightarrow>
     (9 \<le> c \<and> c \<le> 13) \<or> (28 \<le> c \<and> c \<le> 32) \<or> c = 133 \<or> c = 160 \<or> c = 5760 \<or>
     (8192 \<le> c \<and> c \<le> 8202) \<or> c = 8232 \<or> c = 8233 \<or> c = 8239 \<or> c = 8287 \<or> c = 12288"

definition strip :: "str \<Rightarrow> str" where
  "strip s = rev (dropWhile isspace (rev (dropWhile isspace s)))"

text \<open>
  \<open>load_sent_hashes()\<close> returns the set and the file as it leaves it: an absent file is
  created empty.
\<close>

definition load_sent_hashes :: "str option \<Rightarrow> str set \<times> str option" where
  "load_sent_hashes f =
     (case f of
        None \<Rightarrow> ({}, Some [])
      | Some raw \<Rightarrow>
          (set (filter (\<lambda>l. l \<noteq> []) (map strip (file_lines (universal_newlines raw)))), f))"

text \<open>\<open>save_sent_hashes(hashes)\<close> overwrites the file with \<open>h + "\n"\<close> for \<open>h\<close> in \<open>sorted(hashes)\<close>.\<close>

definition save_sent_hashes :: "str set \<Rightarrow> str option" where
  "save_sent_hashes hashes = Some (concat (map (\<lambda>h. h @ [10]) (sorted_list_of_set hashes)))"

section \<open>The world of one run\<close>

text \<open>
  Everything a run reads from outside the process. \<open>completed\<close> lists the URLs of
  \<open>RSS_URLS\<close> in the order in which \<open>as_completed\<close> yields their fetches; \<open>clock u i\<close> is
  the clock reading when entry \<open>i\<close> of the feed at \<open>u\<close> is examined and \<open>report_time\<close> the
  one when the digest is repaired, both in microseconds since the epoch; \<open>unix_time\<close> is
  \<open>int(time.time())\<close> at delivery. An oracle reply is what
  the HTTP exchange and \<open>json.loads\<close> produce: a decoded value or an exception.
\<close>

datatype 'a reply = Failed | Answer 'a

record score_item =
  s_link :: "str option"
  s_score :: "rat option"
  s_reason :: "str option"

datatype json =
    JNull
  | JBool bool
  | JNum rat
  | JStr str
  | JArr "json list"
  | JObj "(str \<times> json) list"

type_synonym dict = "(str \<times> json) list"

datatype attempt = Accepted | Rejected | Failing

record world =
  rss_urls :: "str list"
  completed :: "str list"
  feeds :: "str \<Rightarrow> feed_result"
  clock :: "str \<Rightarrow> nat \<Rightarrow> int"
  api_key :: str
  scoring_reply :: "score_item list option reply"
  synthesis_reply :: "dict reply"
  report_time :: int
  webhook_url :: str
  secret :: str
  unix_time :: int
  sink :: "nat \<Rightarrow> attempt"

section \<open>Fetching all feeds\<close>

definition fetch_rss_entries :: "libs \<Rightarrow> world \<Rightarrow> str option \<Rightarrow> candidate list \<times> str option" where
  "fetch_rss_entries L w file =
     (if rss_urls w = [] then ([], file)
      else
        let (sent_hashes, file') = load_sent_hashes file;
            all_candidates =
              concat (map (\<lambda>u. fetch_single_feed L (clock w u) (feeds w u) sent_hashes)
                          (completed w))
        in (if length all_candidates > MAX_CANDIDATES
            then take MAX_CANDIDATES all_candidates else all_candidates, file'))"

section \<open>The oracle call\<close>

text \<open>
  \<open>OpenAIClient.call_json\<close>: a missing key, or any exception of the request or of the
  decoding, is logged and ends in \<open>sys.exit(1)\<close>. (\<open>QwenClient\<close> has the same shape;
  \<open>ArkClient\<close> retries connection errors and then exits in the same way.)
\<close>

definition call_json :: "str \<Rightarrow> 'a reply \<Rightarrow> py_error + 'a" where
  "call_json key r =
     (if key = [] then Inl (SystemExit 1)
      else case r of Failed \<Rightarrow> Inl (SystemExit 1) | Answer v \<Rightarrow> Inr v)"

section \<open>Scoring\<close>

text \<open>
  The decoded scoring response is \<open>result.get("scores", [])\<close>: \<open>None\<close> when the key is
  absent. Its entries are objects whose \<open>link\<close> and \<open>reason\<close> are strings and whose \<open>score\<close>
  is a JSON number, each present or absent. Python compares \<open>int\<close> and \<open>float\<close> scores by
  their exact values, so a score is a rational number.
\<close>

record scored_entry = candidate +
  score :: rat
  score_reason :: str

definition score_key :: "score_item \<Rightarrow> rat" where
  "score_key x = get_or (s_score x) 0"

text \<open>
  \<open>scores.sort(key=lambda x: x.get("score", 0), reverse=True)\<close>: Python's sort is stable,
  also with \<open>reverse=True\<close>; \<open>sort_key\<close> is a stable insertion sort, here on the negated key.
\<close>

definition sort_scores :: "score_item list \<Rightarrow> score_item list" where
  "sort_scores xs = sort_key (\<lambda>x. - score_key x) xs"

definition top_scores :: "score_item list \<Rightarrow> score_item list" where
  "top_scores xs = take TOP_N (sort_scores xs)"

text \<open>\<open>link_map = {e["link"]: e for e in entries}\<close>: a later entry overwrites an earlier one.\<close>

definition link_map :: "candidate list \<Rightarrow> (str \<rightharpoonup> candidate)" where
  "link_map entries = foldl (\<lambda>m e. m(link e \<mapsto> e)) Map.empty entries"

definition with_score :: "candidate \<Rightarrow> rat \<Rightarrow> str \<Rightarrow> scored_entry" where
  "with_score e v r =
     \<lparr>title = title e, link = link e, summary = summary e, published = published e,
      hash = hash e, score = v, score_reason = r\<rparr>"

text \<open>The loop over \<open>top_scores\<close>; \<open>s["link"]\<close>, \<open>s["score"]\<close>, \<open>s["reason"]\<close> raise \<open>KeyError\<close>.\<close>

fun enrich :: "(str \<rightharpoonup> candidate) \<Rightarrow> score_item list \<Rightarrow> py_error + scored_entry list" where
  "enrich m [] = Inr []"
| "enrich m (s # ss) =
     (case s_link s of
        None \<Rightarrow> Inl (KeyError (ascii ''link''))
      | Some l \<Rightarrow>
          (case m l of
             None \<Rightarrow> enrich m ss
           | Some e \<Rightarrow>
               (case s_score s of
                  None \<Rightarrow> Inl (KeyError (ascii ''score''))
                | Some v \<Rightarrow>
                    (case s_reason s of
                       None \<Rightarrow> Inl (KeyError (ascii ''reason''))
                     | Some r \<Rightarrow>
                         (case enrich m ss of
                            Inl x \<Rightarrow> Inl x
                          | Inr out \<Rightarrow> Inr (with_score e v r # out))))))"

definition score_entries ::
  "str \<Rightarrow> score_item list option reply \<Rightarrow> candidate list \<Rightarrow> py_error + scored_entry list" where
  "score_entries key r entries =
     (if entries = [] then Inr []
      else case call_json key r of
        Inl x \<Rightarrow> Inl x
      | Inr result \<Rightarrow> enrich (link_map entries) (top_scores (get_or result [])))"

section \<open>The current date\<close>

text \<open>\<open>str(n)\<close> for an integer.\<close>

fun dec :: "nat \<Rightarrow> str" where
  "dec n = (if n < 10 then [48 + n] else dec (n div 10) @ [48 + n mod 10])"

declare dec.simps [simp del]

definition str_int :: "int \<Rightarrow> str" where
  "str_int i = (if i < 0 then 45 # dec (nat (- i)) else dec (nat i))"

text \<open>
  \<open>datetime.now(tz)\<close> for a fixed-offset \<open>tz\<close>: the clock reading \<open>t\<close> (microseconds
  since the epoch, UTC) shown on the wall clock of that offset.
\<close>

definition datetime_now :: "int \<Rightarrow> int \<Rightarrow> datetime" where
  "datetime_now off t = \<lparr>wall = t + off, tzoffset = Some off\<rparr>"

text \<open>
  The calendar of \<open>datetime\<close> is the proleptic Gregorian one. \<open>year_of y n\<close> finds the year
  and the day within it of the day that lies \<open>n\<close> days after the first of January of year
  \<open>y\<close>; \<open>month_of\<close> then finds the month and the day within it. \<open>civil_date n\<close> is the
  year, month and day of the month of day number \<open>n\<close>, where day 0 is 1970-01-01.
\<close>

definition is_leap :: "int \<Rightarrow> bool" where
  "is_leap y = (y mod 4 = 0 \<and> (y mod 100 \<noteq> 0 \<or> y mod 400 = 0))"

definition days_in_year :: "int \<Rightarrow> int" where
  "days_in_year y = (if is_leap y then 366 else 365)"

definition days_in_month :: "int \<Rightarrow> int \<Rightarrow> int" where
  "days_in_month y m =
     (if m = 2 then (if is_leap y then 29 else 28)
      else if m = 4 \<or> m = 6 \<or> m = 9 \<or> m = 11 then 30 else 31)"

function year_of :: "int \<Rightarrow> int \<Rightarrow> int \<times> int" where
  "year_of y n =
     (if n < 0 then year_of (y - 1) (n + days_in_year (y - 1))
      else if days_in_year y \<le> n then year_of (y + 1) (n - days_in_year y)
      else (y, n))"
  by pat_completeness auto
termination
  by (relation "measures [\<lambda>(y, n). if n < 0 then 1 else 0, \<lambda>(y, n). nat \<bar>n\<bar>]")
     (auto simp: days_in_year_def split: if_splits)

declare year_of.simps [simp del]

function month_of :: "int \<Rightarrow> int \<Rightarrow> int \<Rightarrow> int \<times> int" where
  "month_of y m n =
     (if m < 12 \<and> days_in_month y m \<le> n then month_of y (m + 1) (n - days_in_month y m)
      else (m, n))"
  by pat_completeness auto
termination
  by (relation "measure (\<lambda>(y, m, n). nat (12 - m))") auto

declare month_of.simps [simp del]

definition civil_date :: "int \<Rightarrow> int \<times> int \<times> int" where
  "civil_date n =
     (case year_of 1970 n of (y, r) \<Rightarrow>
      case month_of y 1 r of (m, d) \<Rightarrow> (y, m, d + 1))"

text \<open>
  \<open>strftime("%Y-%m-%d")\<close>: the year in four digits, the month and the day in two, padded
  with zeros. (\<open>datetime\<close> holds the years 1 to 9999 only; a clock reading is taken to lie in
  that range.)
\<close>

definition zfill :: "nat \<Rightarrow> str \<Rightarrow> str" where
  "zfill n s = replicate (n - length s) 48 @ s"

definition ymd :: "int \<Rightarrow> int \<Rightarrow> int \<Rightarrow> str" where
  "ymd y m d = zfill 4 (str_int y) @ [45] @ zfill 2 (str_int m) @ [45] @ zfill 2 (str_int d)"

definition strftime_ymd :: "datetime \<Rightarrow> str" where
  "strftime_ymd dt = (case civil_date (wall dt div 86400000000) of (y, m, d) \<Rightarrow> ymd y m d)"

section \<open>Synthesis: repairing the digest\<close>

text \<open>
  A decoded JSON object is an association list in insertion order; \<open>dict_set\<close> is
  \<open>d[k] = v\<close> (an existing key keeps its place, a new key goes last).
\<close>

definition has_key :: "dict \<Rightarrow> str \<Rightarrow> bool" where
  "has_key d k = (map_of d k \<noteq> None)"

fun dict_set :: "str \<Rightarrow> json \<Rightarrow> dict \<Rightarrow> dict" where
  "dict_set k v [] = [(k, v)]"
| "dict_set k v (p # ps) = (if fst p = k then (k, v) # ps else p # dict_set k v ps)"

text \<open>\<open>if k not in d: d[k] = v\<close>\<close>

definition set_default :: "str \<Rightarrow> json \<Rightarrow> dict \<Rightarrow> dict" where
  "set_default k v d = (if has_key d k then d else dict_set k v d)"

fun is_substring :: "str \<Rightarrow> str \<Rightarrow> bool" where
  "is_substring sub [] = (sub = [])"
| "is_substring sub (c # cs) = (take (length sub) (c # cs) = sub \<or> is_substring sub cs)"

text \<open>
  \<open>if k not in item: item[k] = v\<close> for an item of any JSON type. On a list, \<open>in\<close> is
  membership and on a string it is the substring test; the assignment raises \<open>TypeError\<close>
  on both. \<open>null\<close>, a number or a boolean is not iterable, so \<open>in\<close> itself raises.
\<close>

definition fill :: "str \<Rightarrow> str \<Rightarrow> json \<Rightarrow> py_error + json" where
  "fill k v item =
     (case item of
        JObj d \<Rightarrow> Inr (JObj (set_default k (JStr v) d))
      | JArr xs \<Rightarrow> if JStr k \<in> set xs then Inr item else Inl TypeError
      | JStr s \<Rightarrow> if is_substring k s then Inr item else Inl TypeError
      | _ \<Rightarrow> Inl TypeError)"

definition and_then :: "py_error + 'a \<Rightarrow> ('a \<Rightarrow> py_error + 'b) \<Rightarrow> py_error + 'b" where
  "and_then r f = (case r of Inl e \<Rightarrow> Inl e | Inr x \<Rightarrow> f x)"

definition default_theme :: str where
  "default_theme = [65, 73, 32, 25216, 26415, 21160, 24577]"
definition default_title :: str where
  "default_title = [26410, 30693, 26631, 39064]"
definition default_source_type :: str where
  "default_source_type = [26410, 30693]"
definition default_erp_relevance :: str where
  "default_erp_relevance = [128309, 32, 20302]"
definition default_summary :: str where
  "default_summary = [26242, 26080, 25688, 35201]"

definition fix_item :: "json \<Rightarrow> py_error + json" where
  "fix_item item =
     and_then (fill (ascii ''title'') default_title item) (\<lambda>i1.
     and_then (fill (ascii ''source_type'') default_source_type i1) (\<lambda>i2.
     and_then (fill (ascii ''erp_relevance'') default_erp_relevance i2) (\<lambda>i3.
     fill (ascii ''summary'') default_summary i3)))"

fun fix_items :: "json list \<Rightarrow> py_error + json list" where
  "fix_items [] = Inr []"
| "fix_items (x # xs) =
     and_then (fix_item x) (\<lambda>y. and_then (fix_items xs) (\<lambda>ys. Inr (y # ys)))"

text \<open>
  \<open>validate_and_fix_report(report)\<close>; \<open>now\<close> is the reading of the clock when it runs,
  in microseconds since the epoch, and \<open>today\<close> is
  \<open>datetime.now(timezone(timedelta(hours=8))).strftime("%Y-%m-%d")\<close>.
\<close>

definition items_list :: "dict \<Rightarrow> json list option" where
  "items_list d = (case map_of d (ascii ''items'') of Some (JArr xs) \<Rightarrow> Some xs | _ \<Rightarrow> None)"

definition today :: "int \<Rightarrow> str" where
  "today now = strftime_ymd (datetime_now (timedelta_hours 8) now)"

definition validate_and_fix_report :: "int \<Rightarrow> dict \<Rightarrow> py_error + dict" where
  "validate_and_fix_report now report =
     (let r1 = set_default (ascii ''date'') (JStr (today now)) report;
          r2 = set_default (ascii ''theme'') (JStr default_theme) r1;
          r3 = (if items_list r2 = None then dict_set (ascii ''items'') (JArr []) r2 else r2)
      in and_then (fix_items (get_or (items_list r3) []))
           (\<lambda>ys. Inr (dict_set (ascii ''items'') (JArr ys) r3)))"

definition generate_daily_report ::
  "str \<Rightarrow> dict reply \<Rightarrow> int \<Rightarrow> scored_entry list \<Rightarrow> py_error + dict" where
  "generate_daily_report key r now top_entries =
     and_then (call_json key r) (validate_and_fix_report now)"

section \<open>Delivery\<close>

text \<open>
  The signature. \<open>hmac.new(string_to_sign.encode("utf-8"), digestmod=hashlib.sha256)\<close>
  passes the string as the first argument of \<open>hmac.new\<close>, which is the key, and passes no
  message.
\<close>

definition string_to_sign :: "str \<Rightarrow> str \<Rightarrow> str" where
  "string_to_sign timestamp scrt = timestamp @ [10] @ scrt"

record hmac_new =
  hmac_key :: bytes
  hmac_msg :: bytes

definition feishu_hmac_new :: "bytes \<Rightarrow> hmac_new" where
  "feishu_hmac_new encoded = \<lparr>hmac_key = encoded, hmac_msg = []\<rparr>"

definition hmac_digest :: "libs \<Rightarrow> hmac_new \<Rightarrow> bytes" where
  "hmac_digest L h = hmac_sha256 L (hmac_key h) (hmac_msg h)"

definition feishu_sign :: "libs \<Rightarrow> str \<Rightarrow> str \<Rightarrow> py_error + str" where
  "feishu_sign L timestamp scrt =
     (if scrt = [] then Inr []
      else case encode_utf8 (string_to_sign timestamp scrt) of
        None \<Rightarrow> Inl UnicodeEncodeError
      | Some encoded \<Rightarrow> Inr (b64encode L (hmac_digest L (feishu_hmac_new encoded))))"

text \<open>
  Building the card calls \<open>item.get\<close> on every element of \<open>report.get("items", [])\<close>, which
  raises \<open>AttributeError\<close> on anything but an object (iterating an object yields its keys,
  iterating a string its characters) and \<open>TypeError\<close> when the value is not iterable.
  The card's text is not part of the model.
\<close>

fun is_object :: "json \<Rightarrow> bool" where
  "is_object (JObj d) = True"
| "is_object _ = False"

definition card_check :: "dict \<Rightarrow> py_error + unit" where
  "card_check report =
     (case map_of report (ascii ''items'') of
        None \<Rightarrow> Inr ()
      | Some (JArr xs) \<Rightarrow> if list_all is_object xs then Inr () else Inl AttributeError
      | Some (JObj d) \<Rightarrow> if d = [] then Inr () else Inl AttributeError
      | Some (JStr s) \<Rightarrow> if s = [] then Inr () else Inl AttributeError
      | Some _ \<Rightarrow> Inl TypeError)"

record payload =
  p_timestamp :: str
  p_sign :: str
  p_msg_type :: str

text \<open>
  The retry loop \<open>for attempt in range(3)\<close>. An attempt is \<open>Accepted\<close> (the response has
  \<open>code == 0\<close>), \<open>Rejected\<close> (a response with another code: a warning, no sleep) or
  \<open>Failing\<close> (an exception inside the \<open>try\<close>: a warning and, when \<open>attempt < 2\<close>,
  \<open>time.sleep(2 ** attempt)\<close>). The function returns \<open>None\<close> in every case; what tells
  the outcomes apart is the last line it logs.
\<close>

datatype push_log = PushSucceeded | PushFinallyFailed | PushSkipped

record delivery =
  posts :: nat
  slept :: "nat list"
  final_log :: push_log

fun attempts_loop :: "(nat \<Rightarrow> attempt) \<Rightarrow> nat list \<Rightarrow> delivery \<Rightarrow> delivery" where
  "attempts_loop snk [] d = d\<lparr>final_log := PushFinallyFailed\<rparr>"
| "attempts_loop snk (a # as) d =
     (case snk a of
        Accepted \<Rightarrow> d\<lparr>posts := posts d + 1, final_log := PushSucceeded\<rparr>
      | Rejected \<Rightarrow> attempts_loop snk as (d\<lparr>posts := posts d + 1\<rparr>)
      | Failing \<Rightarrow>
          attempts_loop snk as
            (d\<lparr>posts := posts d + 1,
               slept := slept d @ (if a < 2 then [2 ^ a] else [])\<rparr>))"

definition deliver :: "(nat \<Rightarrow> attempt) \<Rightarrow> delivery" where
  "deliver snk = attempts_loop snk [0, 1, 2] \<lparr>posts = 0, slept = [], final_log = PushFinallyFailed\<rparr>"

definition send_to_feishu ::
  "libs \<Rightarrow> str \<Rightarrow> str \<Rightarrow> int \<Rightarrow> (nat \<Rightarrow> attempt) \<Rightarrow> dict \<Rightarrow> py_error + payload option \<times> delivery" where
  "send_to_feishu L url scrt now_s snk report =
     (if url = [] then Inr (None, \<lparr>posts = 0, slept = [], final_log = PushSkipped\<rparr>)
      else
        let timestamp = str_int now_s in
        and_then (feishu_sign L timestamp scrt) (\<lambda>sign.
        and_then (card_check report) (\<lambda>_.
          Inr (Some \<lparr>p_timestamp = timestamp, p_sign = sign,
                      p_msg_type = ascii ''interactive''\<rparr>,
               deliver snk))))"

section \<open>The pipeline driver\<close>

text \<open>
  How \<open>main()\<close> ends: it returns after persisting (\<open>Finished\<close>), returns early, or the
  process dies of a \<open>SystemExit\<close> or an uncaught exception.
\<close>

datatype ending = Finished | NoNewContent | NoHighScore | Died py_error

record run =
  ending :: ending
  store :: "str option"
  selected :: "scored_entry list"
  digest :: "dict option"
  pushed :: "delivery option"

definition main :: "libs \<Rightarrow> world \<Rightarrow> str option \<Rightarrow> run" where
  "main L w file =
     (case fetch_rss_entries L w file of (candidates, f1) \<Rightarrow>
      if candidates = [] then
        \<lparr>ending = NoNewContent, store = f1, selected = [], digest = None, pushed = None\<rparr>
      else case score_entries (api_key w) (scoring_reply w) candidates of
        Inl x \<Rightarrow> \<lparr>ending = Died x, store = f1, selected = [], digest = None, pushed = None\<rparr>
      | Inr top_entries \<Rightarrow>
          if top_entries = [] then
            \<lparr>ending = NoHighScore, store = f1, selected = [], digest = None, pushed = None\<rparr>
          else case generate_daily_report (api_key w) (synthesis_reply w) (report_time w) top_entries of
            Inl x \<Rightarrow>
              \<lparr>ending = Died x, store = f1, selected = top_entries, digest = None, pushed = None\<rparr>
          | Inr report \<Rightarrow>
              (case send_to_feishu L (webhook_url w) (secret w) (unix_time w) (sink w) report of
                 Inl x \<Rightarrow>
                   \<lparr>ending = Died x, store = f1, selected = top_entries, digest = Some report,
                    pushed = None\<rparr>
               | Inr (pl, d) \<Rightarrow>
                   (case load_sent_hashes f1 of (sent_hashes, f2) \<Rightarrow>
                      \<lparr>ending = Finished,
                       store = save_sent_hashes (sent_hashes \<union> hash ` set top_entries),
                       selected = top_entries, digest = Some report, pushed = Some d\<rparr>)))"

section \<open>Predicates used in the statements\<close>

text \<open>
  \<open>matches es s\<close>: the scoring entry \<open>s\<close> has a link and it is the link of a candidate.
  \<open>joined es out s\<close>: the output entry \<open>out\<close> is the candidate that \<open>link_map\<close> holds for
  the link of \<open>s\<close>, with the score and the reason of \<open>s\<close>. \<open>complete es s\<close>: \<open>s\<close> has a
  link and, when it matches a candidate, a score and a reason, so that the loop over the
  top entries raises no \<open>KeyError\<close> on it.
\<close>

definition matches :: "candidate list \<Rightarrow> score_item \<Rightarrow> bool" where
  "matches es s = (case s_link s of None \<Rightarrow> False | Some l \<Rightarrow> l \<in> link ` set es)"

definition joined :: "candidate list \<Rightarrow> scored_entry \<Rightarrow> score_item \<Rightarrow> bool" where
  "joined es out s \<longleftrightarrow>
     s_link s = Some (link out) \<and> s_score s = Some (score out)
     \<and> s_reason s = Some (score_reason out)
     \<and> (case link_map es (link out) of
           None \<Rightarrow> False
         | Some e \<Rightarrow> out = with_score e (score out) (score_reason out))"

definition complete :: "candidate list \<Rightarrow> score_item \<Rightarrow> bool" where
  "complete es s \<longleftrightarrow>
     s_link s \<noteq> None \<and> (\<not> matches es s \<or> (s_score s \<noteq> None \<and> s_reason s \<noteq> None))"

text \<open>
  \<open>loaded f\<close> is the set that \<open>load_sent_hashes\<close> reads from the file \<open>f\<close>. A
  fingerprint is \<open>clean\<close> when a line holding it is read back as written: it is not
  empty, has no whitespace at either end and contains no line break.
\<close>

abbreviation loaded :: "str option \<Rightarrow> str set" where
  "loaded f \<equiv> fst (load_sent_hashes f)"

definition clean :: "str \<Rightarrow> bool" where
  "clean h \<longleftrightarrow> h \<noteq> [] \<and> \<not> isspace (hd h) \<and> \<not> isspace (last h) \<and> 10 \<notin> set h \<and> 13 \<notin> set h"

text \<open>
  \<open>placeholder k\<close> is the value that \<open>validate_and_fix_report\<close> stores in an item
  under a missing key \<open>k\<close>; \<open>None\<close> when it stores nothing.
\<close>

definition placeholder :: "str \<Rightarrow> json option" where
  "placeholder k =
     (if k = ascii ''title'' then Some (JStr default_title)
      else if k = ascii ''source_type'' then Some (JStr default_source_type)
      else if k = ascii ''erp_relevance'' then Some (JStr default_erp_relevance)
      else if k = ascii ''summary'' then Some (JStr default_summary)
      else None)"

text \<open>
  \<open>ymd2ord y m d\<close> is the ordinal of the date \<open>y-m-d\<close> in the proleptic Gregorian calendar,
  as \<open>date(y, m, d).toordinal()\<close> counts it: the days before the year, the days before the
  month within the year, and the day of the month.
\<close>

definition days_before_year :: "int \<Rightarrow> int" where
  "days_before_year y = (y - 1) * 365 + (y - 1) div 4 - (y - 1) div 100 + (y - 1) div 400"

definition days_before_month :: "int \<Rightarrow> int \<Rightarrow> int" where
  "days_before_month y m =
     [0, 31, 59, 90, 120, 151, 181, 212, 243, 273, 304, 334] ! nat (m - 1)
       + (if 2 < m \<and> is_leap y then 1 else 0)"

definition ymd2ord :: "int \<Rightarrow> int \<Rightarrow> int \<Rightarrow> int" where
  "ymd2ord y m d = days_before_year y + days_before_month y m + d"

section \<open>Concrete inputs\<close>

text \<open>
  Stand-ins for the library functions in concrete runs. \<open>test_parse\<close> knows two
  timestamps: a naive one and one with the offset +08:00.
\<close>

definition test_sha256 :: "bytes \<Rightarrow> nat" where
  "test_sha256 b = foldl (\<lambda>a x. a * 257 + x + 1) 0 b"

definition naive_stamp :: datetime where
  "naive_stamp = \<lparr>wall = 1704067200000000, tzoffset = None\<rparr>"

definition aware_stamp :: datetime where
  "aware_stamp = \<lparr>wall = 1704096000000000, tzoffset = Some 28800000000\<rparr>"

definition test_parse :: "str \<Rightarrow> datetime option" where
  "test_parse s =
     (if s = ascii ''2024-01-01T00:00:00'' then Some naive_stamp
      else if s = ascii ''2024-01-01T08:00:00+08:00'' then Some aware_stamp
      else None)"

definition test_hmac :: "bytes \<Rightarrow> bytes \<Rightarrow> bytes" where
  "test_hmac k m = rev k @ [0] @ m"

definition test_b64 :: "bytes \<Rightarrow> str" where
  "test_b64 b = b"

definition test_libs :: libs where
  "test_libs = \<lparr>sha256 = test_sha256, date_parse = test_parse,
                 hmac_sha256 = test_hmac, b64encode = test_b64\<rparr>"

definition fails_twice :: "nat \<Rightarrow> attempt" where
  "fails_twice a = (if a < 2 then Failing else Accepted)"

definition always_failing :: "nat \<Rightarrow> attempt" where
  "always_failing a = Failing"

definition test_clock :: "nat \<Rightarrow> int" where
  "test_clock i = 1704070800000000"

definition long_entry :: feed_entry where
  "long_entry =
     \<lparr>fe_link = Some (ascii ''http://a''), fe_published = Some (ascii ''2024-01-01T00:00:00''),
      fe_updated = None, fe_title = None, fe_summary = Some (replicate 501 120),
      fe_description = None\<rparr>"

definition cand :: "str \<Rightarrow> candidate" where
  "cand l = \<lparr>title = [], link = l, summary = [],
             published = ascii ''2024-01-01T00:00:00'',
             hash = hexdigest (test_sha256 l)\<rparr>"

definition item :: "str \<Rightarrow> rat \<Rightarrow> score_item" where
  "item l v = \<lparr>s_link = Some l, s_score = Some v, s_reason = Some (ascii ''r'')\<rparr>"

definition three_cands :: "candidate list" where
  "three_cands = [cand (ascii ''a''), cand (ascii ''b''), cand (ascii ''c'')]"

definition stray_first :: "score_item list" where
  "stray_first = [item (ascii ''x'') 10, item (ascii ''a'') 9, item (ascii ''b'') 8,
                  item (ascii ''c'') 7]"

definition unreasoned :: "score_item list" where
  "unreasoned = [(item (ascii ''a'') 9)\<lparr>s_reason := None\<rparr>, item (ascii ''b'') 8,
                 item (ascii ''c'') 7]"

definition tied :: "score_item list" where
  "tied = [item (ascii ''b'') 5, item (ascii ''a'') 5, item (ascii ''c'') 7]"

definition entry :: "str \<Rightarrow> feed_entry" where
  "entry l = \<lparr>fe_link = Some l, fe_published = Some (ascii ''2024-01-01T00:00:00''),
              fe_updated = None, fe_title = None, fe_summary = None, fe_description = None\<rparr>"

definition four_entries :: "feed_entry list" where
  "four_entries = [entry (ascii ''a''), entry (ascii ''b''), entry (ascii ''c''),
                   entry (ascii ''d'')]"

definition three_entries :: "feed_entry list" where
  "three_entries = [entry (ascii ''a''), entry (ascii ''b''), entry (ascii ''c'')]"

definition four_feeds :: "str \<Rightarrow> feed_result" where
  "four_feeds u = Feed four_entries"

definition three_feeds :: "str \<Rightarrow> feed_result" where
  "three_feeds u = Feed three_entries"

definition feed_clock :: "str \<Rightarrow> nat \<Rightarrow> int" where
  "feed_clock u = test_clock"

definition four_scores :: "score_item list" where
  "four_scores = [item (ascii ''a'') 9, item (ascii ''b'') 8, item (ascii ''c'') 7,
                  item (ascii ''d'') 6]"

definition world4 :: world where
  "world4 = \<lparr>rss_urls = [ascii ''u''], completed = [ascii ''u''], feeds = four_feeds,
              clock = feed_clock, api_key = ascii ''k'',
              scoring_reply = Answer (Some four_scores), synthesis_reply = Answer [],
              report_time = 1704070800000000, webhook_url = ascii ''h'', secret = [],
              unix_time = 1704070800, sink = always_failing\<rparr>"

definition world3 :: world where
  "world3 = world4\<lparr>feeds := three_feeds, scoring_reply := Answer (Some tied)\<rparr>"

definition top3 :: "scored_entry list" where
  "top3 = [with_score (cand (ascii ''a'')) 9 (ascii ''r''),
           with_score (cand (ascii ''b'')) 8 (ascii ''r''),
           with_score (cand (ascii ''c'')) 7 (ascii ''r'')]"

definition bare_report :: dict where
  "bare_report = [(ascii ''items'', JArr [JObj []])]"

definition empty_report :: dict where
  "empty_report = [(ascii ''items'', JArr [])]"

definition signed_payload :: payload where
  "signed_payload =
     \<lparr>p_timestamp = ascii ''1704070800'',
      p_sign = b64encode test_libs
                 (hmac_sha256 test_libs (ascii ''1704070800'' @ [10] @ ascii ''s'') []),
      p_msg_type = ascii ''interactive''\<rparr>"

section \<open>Basic facts\<close>

lemma ascii_eq_iff [simp]: "ascii a = ascii b \<longleftrightarrow> a = b"
  by (simp add: ascii_def inj_map_eq_map inj_def)

lemma length_ascii [simp]: "length (ascii a) = length a"
  by (simp add: ascii_def)

section \<open>The recency filter\<close>

text \<open>
  Claim C8. The recency filter includes its lower edge: an entry whose parsed publication
  time is exactly \<open>now - window\<close> is recent, one a second earlier is not, and a timestamp
  that parses without a timezone is compared as if its wall-clock reading were UTC (it is
  made aware first; subtracting a naive value from \<open>now\<close> would raise and drop the entry).
\<close>

theorem is_recent_boundary:
  assumes "date_parse L p = Some d"
  shows "(is_recent L now p h \<longleftrightarrow> now - (wall d - get_or (tzoffset d) 0) \<le> timedelta_hours h)
       \<and> (wall d - get_or (tzoffset d) 0 = now - timedelta_hours h \<longrightarrow> is_recent L now p h)
       \<and> (wall d - get_or (tzoffset d) 0 = now - timedelta_hours h - 1000000 \<longrightarrow>
            \<not> is_recent L now p h)
       \<and> (tzoffset d = None \<longrightarrow> (is_recent L now p h \<longleftrightarrow> now - wall d \<le> timedelta_hours h))"
  using assms
  by (auto simp: is_recent_def assume_utc_def sub_aware_def get_or_def timedelta_hours_def
           split: option.splits)

theorem is_recent_boundary_witness:
  "date_parse test_libs (ascii ''2024-01-01T00:00:00'') = Some naive_stamp
   \<and> tzoffset naive_stamp = None
   \<and> wall naive_stamp - get_or (tzoffset naive_stamp) 0 = 1704240000000000 - timedelta_hours 48
   \<and> is_recent test_libs 1704240000000000 (ascii ''2024-01-01T00:00:00'') 48
   \<and> wall naive_stamp - get_or (tzoffset naive_stamp) 0
        = 1704240001000000 - timedelta_hours 48 - 1000000
   \<and> \<not> is_recent test_libs 1704240001000000 (ascii ''2024-01-01T00:00:00'') 48"
proof -
  have p: "date_parse test_libs (ascii ''2024-01-01T00:00:00'') = Some naive_stamp"
    by (simp add: test_libs_def test_parse_def)
  have e1: "wall naive_stamp - get_or (tzoffset naive_stamp) 0
              = 1704240000000000 - timedelta_hours 48"
    by (simp add: naive_stamp_def get_or_def timedelta_hours_def)
  have e2: "wall naive_stamp - get_or (tzoffset naive_stamp) 0
              = 1704240001000000 - timedelta_hours 48 - 1000000"
    by (simp add: naive_stamp_def get_or_def timedelta_hours_def)
  have n: "tzoffset naive_stamp = None"
    by (simp add: naive_stamp_def)
  from is_recent_boundary [OF p, of 1704240000000000 48] e1
  have r1: "is_recent test_libs 1704240000000000 (ascii ''2024-01-01T00:00:00'') 48"
    by blast
  from is_recent_boundary [OF p, of 1704240001000000 48] e2
  have r2: "\<not> is_recent test_libs 1704240001000000 (ascii ''2024-01-01T00:00:00'') 48"
    by blast
  from p n e1 r1 e2 r2 show ?thesis by blast
qed

section \<open>Delivery retries\<close>

lemma deliver_cases:
  "deliver snk =
    (case snk 0 of
       Accepted \<Rightarrow> \<lparr>posts = 1, slept = [], final_log = PushSucceeded\<rparr>
     | _ \<Rightarrow>
      (case snk 1 of
         Accepted \<Rightarrow> \<lparr>posts = 2, slept = (if snk 0 = Failing then [1] else []),
                      final_log = PushSucceeded\<rparr>
       | _ \<Rightarrow>
        (case snk 2 of
           Accepted \<Rightarrow>
             \<lparr>posts = 3,
              slept = (if snk 0 = Failing then [1] else []) @ (if snk 1 = Failing then [2] else []),
              final_log = PushSucceeded\<rparr>
         | _ \<Rightarrow>
             \<lparr>posts = 3,
              slept = (if snk 0 = Failing then [1] else []) @ (if snk 1 = Failing then [2] else []),
              final_log = PushFinallyFailed\<rparr>)))"
  by (simp add: deliver_def numeral_2_eq_2 split: attempt.splits)

text \<open>
  Claim C3, amended. Delivery posts at most 3 times. It sleeps only after an attempt that
  raised an exception and is not the last one, for \<open>2 ^ attempt\<close> seconds: 1 second after
  the first attempt and 2 seconds after the second (not 2 and 4), and not at all after a
  response with a non-zero code. A sink that fails twice and then accepts gives success
  after exactly 3 posts; a sink that fails 3 times gives the final-failure log line and a
  normal return.
\<close>

theorem deliver_retry:
  "posts (deliver snk) \<le> 3
   \<and> slept (deliver snk)
       = map (\<lambda>a. 2 ^ a) (filter (\<lambda>a. snk a = Failing) [0..<min 2 (posts (deliver snk))])
   \<and> (snk 0 = Failing \<and> snk 1 = Failing \<longrightarrow> slept (deliver snk) = [1, 2])
   \<and> (snk 0 \<noteq> Accepted \<and> snk 1 \<noteq> Accepted \<and> snk 2 = Accepted \<longrightarrow>
        posts (deliver snk) = 3 \<and> final_log (deliver snk) = PushSucceeded)
   \<and> (snk 0 \<noteq> Accepted \<and> snk 1 \<noteq> Accepted \<and> snk 2 \<noteq> Accepted \<longrightarrow>
        posts (deliver snk) = 3 \<and> final_log (deliver snk) = PushFinallyFailed)"
  by (cases "snk 0"; cases "snk 1"; cases "snk 2";
      simp add: deliver_cases upt_rec numeral_2_eq_2)

theorem deliver_retry_witness:
  "fails_twice 0 \<noteq> Accepted \<and> fails_twice 1 \<noteq> Accepted \<and> fails_twice 2 = Accepted
   \<and> posts (deliver fails_twice) = 3 \<and> final_log (deliver fails_twice) = PushSucceeded
   \<and> slept (deliver fails_twice) = [1, 2]
   \<and> always_failing 0 \<noteq> Accepted \<and> always_failing 1 \<noteq> Accepted \<and> always_failing 2 \<noteq> Accepted
   \<and> posts (deliver always_failing) = 3
   \<and> final_log (deliver always_failing) = PushFinallyFailed"
proof -
  have a: "fails_twice 0 = Failing \<and> fails_twice 1 = Failing"
          "fails_twice 0 \<noteq> Accepted \<and> fails_twice 1 \<noteq> Accepted \<and> fails_twice 2 = Accepted"
    by (simp_all add: fails_twice_def)
  have b: "always_failing 0 \<noteq> Accepted \<and> always_failing 1 \<noteq> Accepted
           \<and> always_failing 2 \<noteq> Accepted"
    by (simp add: always_failing_def)
  from a b deliver_retry [of fails_twice] deliver_retry [of always_failing]
  show ?thesis by blast
qed

theorem deliver_backoff_counterexample:
  "slept (deliver always_failing) = [1, 2] \<and> slept (deliver always_failing) \<noteq> [2, 4]"
  by (simp add: deliver_cases always_failing_def)

section \<open>Summary truncation\<close>

text \<open>
  Claim C7, amended. The summary of a candidate is the source summary when that has at
  most 500 characters; a longer one is cut to its first 500 characters followed by the
  three-character marker \<open>...\<close>, so it has 503 characters (not at most 500).
\<close>

theorem summary_truncated:
  assumes "process_entry L now sent e = Keep c"
  shows "summary c = truncate_summary (get_or (fe_summary e) (get_or (fe_description e) []))
       \<and> length (summary c) \<le> 503
       \<and> (length (get_or (fe_summary e) (get_or (fe_description e) [])) \<le> 500 \<longrightarrow>
            summary c = get_or (fe_summary e) (get_or (fe_description e) []))
       \<and> (length (get_or (fe_summary e) (get_or (fe_description e) [])) > 500 \<longrightarrow>
            summary c
              = take 500 (get_or (fe_summary e) (get_or (fe_description e) [])) @ ascii ''...''
            \<and> length (summary c) = 503)"
proof -
  have "summary c = truncate_summary (get_or (fe_summary e) (get_or (fe_description e) []))"
    using assms
    by (auto simp: process_entry_def Let_def split: if_splits sum.splits)
  then show ?thesis
    by (simp add: truncate_summary_def)
qed

lemma long_entry_kept:
  "process_entry test_libs (test_clock 0) {} long_entry =
     Keep \<lparr>title = [], link = ascii ''http://a'', summary = replicate 500 120 @ ascii ''...'',
           published = ascii ''2024-01-01T00:00:00'',
           hash = hexdigest (test_sha256 (ascii ''http://a''))\<rparr>"
  by (simp add: process_entry_def long_entry_def get_or_def hash_link_def
        is_recent_def test_libs_def test_parse_def naive_stamp_def assume_utc_def sub_aware_def
        timedelta_hours_def HOURS_WINDOW_def test_clock_def truncate_summary_def Let_def
        ascii_def utf8_char_def)

theorem summary_truncated_witness:
  "process_entry test_libs (test_clock 0) {} long_entry =
     Keep \<lparr>title = [], link = ascii ''http://a'', summary = replicate 500 120 @ ascii ''...'',
           published = ascii ''2024-01-01T00:00:00'',
           hash = hexdigest (test_sha256 (ascii ''http://a''))\<rparr>
   \<and> length (get_or (fe_summary long_entry) (get_or (fe_description long_entry) [])) > 500
   \<and> length (replicate 500 (120::nat) @ ascii ''...'') = 503"
proof -
  have g: "length (get_or (fe_summary long_entry) (get_or (fe_description long_entry) [])) > 500"
    by (simp add: long_entry_def get_or_def)
  from summary_truncated [OF long_entry_kept] g
  have "length (summary \<lparr>title = [], link = ascii ''http://a'',
           summary = replicate 500 120 @ ascii ''...'',
           published = ascii ''2024-01-01T00:00:00'',
           hash = hexdigest (test_sha256 (ascii ''http://a''))\<rparr>) = 503"
    by blast
  then have "length (replicate 500 (120::nat) @ ascii ''...'') = 503"
    by simp
  with long_entry_kept g show ?thesis by blast
qed

theorem summary_length_counterexample:
  "map summary (fetch_single_feed test_libs test_clock (Feed [long_entry]) {})
     = [replicate 500 120 @ ascii ''...'']
   \<and> \<not> length (replicate 500 (120::nat) @ ascii ''...'') \<le> 500"
  by (simp add: fetch_single_feed_def long_entry_kept)

section \<open>Scoring\<close>

lemma link_map_foldl_dom:
  "dom (foldl (\<lambda>m e. m(link e \<mapsto> e)) m0 es) = dom m0 \<union> link ` set es"
  by (induction es arbitrary: m0) auto

lemma link_map_dom: "dom (link_map es) = link ` set es"
  by (simp add: link_map_def link_map_foldl_dom)

lemma link_map_foldl_Some:
  "foldl (\<lambda>m e. m(link e \<mapsto> e)) m0 es l = Some c \<Longrightarrow> (c \<in> set es \<and> link c = l) \<or> m0 l = Some c"
proof (induction es arbitrary: m0)
  case Nil
  then show ?case by simp
next
  case (Cons a es)
  from Cons.prems have "foldl (\<lambda>m e. m(link e \<mapsto> e)) (m0(link a \<mapsto> a)) es l = Some c"
    by (simp only: foldl_Cons)
  from Cons.IH [OF this] show ?case
    by (auto split: if_splits)
qed

lemma link_map_None_iff: "link_map es l = None \<longleftrightarrow> l \<notin> link ` set es"
  using link_map_dom [of es] by (metis domIff)

lemma link_map_Some: "link_map es l = Some c \<Longrightarrow> c \<in> set es \<and> link c = l"
  using link_map_foldl_Some [of Map.empty es l c] by (simp add: link_map_def)

lemma enrich_complete:
  assumes "list_all (complete es) ss"
  shows "\<exists>out. enrich (link_map es) ss = Inr out \<and> list_all2 (joined es) out (filter (matches es) ss)"
  using assms
proof (induction ss)
  case Nil
  then show ?case by simp
next
  case (Cons s ss)
  then obtain out where out: "enrich (link_map es) ss = Inr out"
      "list_all2 (joined es) out (filter (matches es) ss)" by auto
  from Cons.prems obtain l where l: "s_link s = Some l" by (auto simp: complete_def)
  show ?case
  proof (cases "link_map es l")
    case None
    then have "\<not> matches es s" using l by (simp add: matches_def link_map_None_iff)
    then show ?thesis using None l out by simp
  next
    case (Some e)
    then have m: "matches es s" using l link_map_None_iff [of es l] by (simp add: matches_def)
    with Cons.prems obtain v r where vr: "s_score s = Some v" "s_reason s = Some r"
      by (auto simp: complete_def)
    have "joined es (with_score e v r) s"
      using l vr Some link_map_Some [OF Some] by (auto simp: joined_def with_score_def)
    then show ?thesis using Some l vr out m by simp
  qed
qed

lemma enrich_incomplete:
  assumes "\<not> list_all (complete es) ss"
  shows "\<exists>k. enrich (link_map es) ss = Inl (KeyError k)"
  using assms
proof (induction ss)
  case Nil
  then show ?case by simp
next
  case (Cons s ss)
  show ?case
  proof (cases "complete es s")
    case True
    with Cons.prems have "\<not> list_all (complete es) ss" by simp
    from Cons.IH [OF this] obtain k where k: "enrich (link_map es) ss = Inl (KeyError k)"
      by blast
    from True obtain l where l: "s_link s = Some l" by (auto simp: complete_def)
    show ?thesis
    proof (cases "link_map es l")
      case None
      then show ?thesis using l k by simp
    next
      case (Some e)
      then have "matches es s" using l link_map_None_iff [of es l] by (simp add: matches_def)
      with True obtain v r where "s_score s = Some v" "s_reason s = Some r"
        by (auto simp: complete_def)
      then show ?thesis using Some l k by simp
    qed
  next
    case False
    show ?thesis
    proof (cases "s_link s")
      case None
      then show ?thesis by simp
    next
      case (Some l)
      with False have m: "matches es s" and n: "s_score s = None \<or> s_reason s = None"
        by (auto simp: complete_def)
      from m Some obtain e where e: "link_map es l = Some e"
        using link_map_None_iff [of es l] by (auto simp: matches_def)
      from n show ?thesis
        using Some e by (auto split: option.splits)
    qed
  qed
qed

lemma sort_scores_sorted: "sorted_wrt (\<lambda>a b. score_key a \<ge> score_key b) (sort_scores xs)"
proof -
  have "sorted (map (\<lambda>x. - score_key x) (sort_scores xs))"
    unfolding sort_scores_def by (rule sorted_sort_key)
  then show ?thesis by (simp add: sorted_map)
qed

lemma sort_scores_stable:
  "filter (\<lambda>x. score_key x = k) (sort_scores xs) = filter (\<lambda>x. score_key x = k) xs"
  using sort_key_stable [of "\<lambda>x. - score_key x" "- k" xs] by (simp add: sort_scores_def)

lemma sorted_wrt_take_any: "sorted_wrt P xs \<Longrightarrow> sorted_wrt P (take n xs)"
  by (metis append_take_drop_id sorted_wrt_append)

lemma joined_sorted:
  assumes "list_all2 (joined es) out ss" "sorted_wrt (\<lambda>a b. score_key a \<ge> score_key b) ss"
  shows "sorted_wrt (\<lambda>a b. score a \<ge> score b) out"
  using assms
proof (induction rule: list_all2_induct)
  case Nil
  then show ?case by simp
next
  case (Cons x xs y ys)
  have "\<forall>o' \<in> set xs. score x \<ge> score o'"
  proof
    fix o' assume "o' \<in> set xs"
    then obtain s' where "s' \<in> set ys" "joined es o' s'"
      using Cons.hyps(2) by (metis list_all2_conv_all_nth in_set_conv_nth)
    then show "score x \<ge> score o'"
      using Cons.prems Cons.hyps(1) by (auto simp: joined_def score_key_def get_or_def)
  qed
  then show ?case using Cons by simp
qed

text \<open>
  Claim C1, amended. The oracle has answered (which needs a configured API key). When each
  of the 3 highest-scored entries of the response has a link and, if that link is a
  candidate's, a score and a reason, then: the response is sorted and cut to its first 3
  entries before the links are looked up, so an entry whose link is not a candidate's is
  dropped without an error but does count against the budget of 3; the output is, in
  descending score order, the candidate-matching entries among the 3 highest-scored
  entries of the response; and it has 3 entries exactly when the response has at least 3
  entries and those 3 entries all match. For any other response and a non-empty candidate
  list the lookup of the missing field raises \<open>KeyError\<close>.
\<close>

theorem score_entries_top:
  assumes "key \<noteq> []"
  shows "(list_all (complete entries) (top_scores (get_or r [])) \<longrightarrow>
          (\<exists>out. score_entries key (Answer r) entries = Inr out
             \<and> list_all2 (joined entries) out
                   (filter (matches entries) (take 3 (sort_scores (get_or r []))))
             \<and> length out \<le> 3
             \<and> sorted_wrt (\<lambda>a b. score a \<ge> score b) out
             \<and> (length out = 3 \<longleftrightarrow>
                  3 \<le> length (get_or r [])
                  \<and> list_all (matches entries) (take 3 (sort_scores (get_or r []))))))
       \<and> (entries \<noteq> [] \<and> \<not> list_all (complete entries) (top_scores (get_or r [])) \<longrightarrow>
            (\<exists>k. score_entries key (Answer r) entries = Inl (KeyError k)))"
proof (intro conjI impI)
  assume "entries \<noteq> [] \<and> \<not> list_all (complete entries) (top_scores (get_or r []))"
  then have ne: "entries \<noteq> []"
    and nc: "\<not> list_all (complete entries) (top_scores (get_or r []))"
    by blast+
  from enrich_incomplete [OF nc] obtain k where
    "enrich (link_map entries) (top_scores (get_or r [])) = Inl (KeyError k)"
    by blast
  then have "score_entries key (Answer r) entries = Inl (KeyError k)"
    using ne assms by (simp add: score_entries_def call_json_def)
  then show "\<exists>k. score_entries key (Answer r) entries = Inl (KeyError k)"
    by blast
next
  assume c: "list_all (complete entries) (top_scores (get_or r []))"
  let ?top = "take 3 (sort_scores (get_or r []))"
  have t: "top_scores (get_or r []) = ?top" by (simp add: top_scores_def TOP_N_def)
  from enrich_complete [OF c] obtain out where
    out: "enrich (link_map entries) ?top = Inr out"
         "list_all2 (joined entries) out (filter (matches entries) ?top)"
    unfolding t by blast
  have len: "length out = length (filter (matches entries) ?top)"
    using out(2) by (rule list_all2_lengthD)
  have se: "score_entries key (Answer r) entries = Inr out"
  proof (cases "entries = []")
    case True
    then have "filter (matches entries) ?top = []"
      by (simp add: matches_def split: option.splits)
    then have "out = []" using len by simp
    with True show ?thesis by (simp add: score_entries_def)
  next
    case False
    then show ?thesis
      using assms out(1) by (simp add: score_entries_def call_json_def t)
  qed
  have l3: "length out \<le> 3"
    unfolding len by (rule order_trans [OF length_filter_le]) simp
  have srt: "sorted_wrt (\<lambda>a b. score a \<ge> score b) out"
    by (rule joined_sorted [OF out(2)])
       (intro sorted_wrt_filter sorted_wrt_take_any sort_scores_sorted)
  have lt: "length ?top = min 3 (length (get_or r []))"
    by (simp add: sort_scores_def min.commute)
  have eq3: "length out = 3 \<longleftrightarrow>
      3 \<le> length (get_or r []) \<and> list_all (matches entries) ?top"
  proof
    assume a: "length out = 3"
    then have "length (filter (matches entries) ?top) = 3" using len by simp
    moreover have "length (filter (matches entries) ?top) \<le> length ?top" by (rule length_filter_le)
    moreover have "length ?top \<le> 3" by simp
    ultimately have feq: "length (filter (matches entries) ?top) = length ?top"
      and l3: "length ?top = 3"
      by linarith+
    have "list_all (matches entries) ?top"
      unfolding list_all_iff
    proof
      fix x assume x: "x \<in> set ?top"
      show "matches entries x"
      proof (rule ccontr)
        assume n: "\<not> matches entries x"
        have "length (filter (matches entries) ?top) < length ?top"
          using x n by (rule length_filter_less)
        then show False using feq by simp
      qed
    qed
    moreover have "3 \<le> length (get_or r [])" using l3 lt by simp
    ultimately show "3 \<le> length (get_or r []) \<and> list_all (matches entries) ?top"
      by blast
  next
    assume "3 \<le> length (get_or r []) \<and> list_all (matches entries) ?top"
    then have "filter (matches entries) ?top = ?top" "length ?top = 3"
      using lt by (auto simp: list_all_iff filter_id_conv)
    then show "length out = 3" using len by simp
  qed
  from se out(2) l3 srt eq3
  show "\<exists>out. score_entries key (Answer r) entries = Inr out
             \<and> list_all2 (joined entries) out
                   (filter (matches entries) (take 3 (sort_scores (get_or r []))))
             \<and> length out \<le> 3
             \<and> sorted_wrt (\<lambda>a b. score a \<ge> score b) out
             \<and> (length out = 3 \<longleftrightarrow>
                  3 \<le> length (get_or r [])
                  \<and> list_all (matches entries) (take 3 (sort_scores (get_or r []))))"
    by blast
qed

lemma test_key: "ascii ''k'' \<noteq> []"
  by (simp add: ascii_def)

lemma three_nonempty: "three_cands \<noteq> []"
  by (simp add: three_cands_def)

lemma sorted_tied:
  "sort_scores tied = [item (ascii ''c'') 7, item (ascii ''b'') 5, item (ascii ''a'') 5]"
  by (simp add: sort_scores_def tied_def item_def score_key_def get_or_def)

lemma sorted_stray_first: "sort_scores stray_first = stray_first"
  by (simp add: sort_scores_def stray_first_def item_def score_key_def get_or_def)

lemma link_map_three:
  "link_map three_cands (ascii ''a'') = Some (cand (ascii ''a''))"
  "link_map three_cands (ascii ''b'') = Some (cand (ascii ''b''))"
  "link_map three_cands (ascii ''c'') = Some (cand (ascii ''c''))"
  "link_map three_cands (ascii ''x'') = None"
  by (simp_all add: link_map_def three_cands_def cand_def)

lemma sorted_unreasoned: "sort_scores unreasoned = unreasoned"
  by (simp add: sort_scores_def unreasoned_def item_def score_key_def get_or_def)

theorem score_entries_top_witness:
  "ascii ''k'' \<noteq> []
   \<and> list_all (complete three_cands) (top_scores (get_or (Some tied) []))
   \<and> (\<exists>out. score_entries (ascii ''k'') (Answer (Some tied)) three_cands = Inr out
          \<and> length out = 3)
   \<and> three_cands \<noteq> []
   \<and> \<not> list_all (complete three_cands) (top_scores (get_or (Some unreasoned) []))
   \<and> (\<exists>k. score_entries (ascii ''k'') (Answer (Some unreasoned)) three_cands
              = Inl (KeyError k))"
proof -
  have c: "list_all (complete three_cands) (top_scores (get_or (Some tied) []))"
    by (simp add: top_scores_def TOP_N_def get_or_def sorted_tied complete_def item_def)
  note n = three_nonempty
  have m: "3 \<le> length (get_or (Some tied) [])
           \<and> list_all (matches three_cands) (take 3 (sort_scores (get_or (Some tied) [])))"
    by (simp add: get_or_def sorted_tied matches_def item_def)
       (simp add: tied_def three_cands_def cand_def)
  have u: "\<not> list_all (complete three_cands) (top_scores (get_or (Some unreasoned) []))"
    by (simp add: top_scores_def TOP_N_def get_or_def sorted_unreasoned)
       (simp add: unreasoned_def complete_def matches_def item_def three_cands_def cand_def)
  from score_entries_top [OF test_key, of three_cands "Some tied"] c m
  have a: "\<exists>out. score_entries (ascii ''k'') (Answer (Some tied)) three_cands = Inr out
          \<and> length out = 3"
    by blast
  from score_entries_top [OF test_key, of three_cands "Some unreasoned"] n u
  have b: "\<exists>k. score_entries (ascii ''k'') (Answer (Some unreasoned)) three_cands
              = Inl (KeyError k)"
    by blast
  from test_key c a n u b show ?thesis by blast
qed

theorem score_entries_budget_counterexample:
  "score_entries (ascii ''k'') (Answer (Some stray_first)) three_cands
     = Inr [with_score (cand (ascii ''a'')) 9 (ascii ''r''),
            with_score (cand (ascii ''b'')) 8 (ascii ''r'')]
   \<and> length (filter (matches three_cands) stray_first) = 3"
proof -
  have "score_entries (ascii ''k'') (Answer (Some stray_first)) three_cands
     = Inr [with_score (cand (ascii ''a'')) 9 (ascii ''r''),
            with_score (cand (ascii ''b'')) 8 (ascii ''r'')]"
    by (simp add: score_entries_def call_json_def test_key three_nonempty get_or_def
          top_scores_def TOP_N_def sorted_stray_first)
       (simp add: stray_first_def item_def link_map_three)
  moreover have "length (filter (matches three_cands) stray_first) = 3"
    by (simp add: stray_first_def item_def matches_def three_cands_def cand_def)
  ultimately show ?thesis by blast
qed

text \<open>
  Claim C5, amended. The scoring response is sorted by score, descending, with a stable
  sort: entries with equal scores keep the order they have in the oracle's response (the
  order of the candidates plays no part). The sorted response is then cut to 3 entries.
\<close>

theorem sort_scores_stable_desc:
  "sorted_wrt (\<lambda>a b. score_key a \<ge> score_key b) (sort_scores xs)
   \<and> (\<forall>k. filter (\<lambda>x. score_key x = k) (sort_scores xs) = filter (\<lambda>x. score_key x = k) xs)
   \<and> top_scores xs = take 3 (sort_scores xs)
   \<and> score_entries key (Answer r) entries
       = (if entries = [] then Inr []
          else if key = [] then Inl (SystemExit 1)
          else enrich (link_map entries) (take 3 (sort_scores (get_or r []))))"
  by (simp add: sort_scores_sorted sort_scores_stable top_scores_def TOP_N_def
        score_entries_def call_json_def)

theorem tie_order_counterexample:
  "map link three_cands = [ascii ''a'', ascii ''b'', ascii ''c'']
   \<and> score_entries (ascii ''k'') (Answer (Some tied)) three_cands
     = Inr [with_score (cand (ascii ''c'')) 7 (ascii ''r''),
            with_score (cand (ascii ''b'')) 5 (ascii ''r''),
            with_score (cand (ascii ''a'')) 5 (ascii ''r'')]"
proof -
  have "score_entries (ascii ''k'') (Answer (Some tied)) three_cands
     = Inr [with_score (cand (ascii ''c'')) 7 (ascii ''r''),
            with_score (cand (ascii ''b'')) 5 (ascii ''r''),
            with_score (cand (ascii ''a'')) 5 (ascii ''r'')]"
    by (simp add: score_entries_def call_json_def test_key three_nonempty get_or_def
          top_scores_def TOP_N_def sorted_tied)
       (simp add: item_def link_map_three)
  moreover have "map link three_cands = [ascii ''a'', ascii ''b'', ascii ''c'']"
    by (simp add: three_cands_def cand_def)
  ultimately show ?thesis by blast
qed

section \<open>The dedup store: loading what was saved\<close>


lemma universal_newlines_id: "13 \<notin> set t \<Longrightarrow> universal_newlines t = t"
  by (induction t rule: universal_newlines.induct) auto

lemma universal_newlines_no_cr: "13 \<notin> set (universal_newlines t)"
  by (induction t rule: universal_newlines.induct) auto

lemma lines_acc_line:
  "10 \<notin> set h \<Longrightarrow> lines_acc cur (h @ 10 # rest) = (cur @ h @ [10]) # lines_acc [] rest"
  by (induction h arbitrary: cur) auto

lemma file_lines_render:
  "\<forall>h \<in> set hs. 10 \<notin> set h \<Longrightarrow>
   file_lines (concat (map (\<lambda>h. h @ [10]) hs)) = map (\<lambda>h. h @ [10]) hs"
proof (induction hs)
  case Nil
  then show ?case by (simp add: file_lines_def)
next
  case (Cons h hs)
  then show ?case
    using lines_acc_line [of h "[]" "concat (map (\<lambda>h. h @ [10]) hs)"]
    by (simp add: file_lines_def)
qed

lemma strip_clean: "clean h \<Longrightarrow> strip (h @ [10]) = h"
proof -
  assume c: "clean h"
  then obtain x xs where h: "h = x # xs" by (cases h) (auto simp: clean_def)
  have sp: "isspace 10" by (simp add: isspace_def)
  have 1: "dropWhile isspace (h @ [10]) = h @ [10]"
    using c h by (simp add: clean_def)
  have "rev h \<noteq> []" "\<not> isspace (hd (rev h))"
    using c by (auto simp: clean_def hd_rev)
  then have 2: "dropWhile isspace (rev h) = rev h"
    by (cases "rev h") auto
  show ?thesis
    unfolding strip_def 1 using sp 2 by simp
qed

lemma lines_acc_shape:
  "10 \<notin> set cur \<Longrightarrow> l \<in> set (lines_acc cur t) \<Longrightarrow>
     l \<noteq> [] \<and> 10 \<notin> set (butlast l) \<and> set l \<subseteq> set cur \<union> set t"
proof (induction t arbitrary: cur)
  case Nil
  then show ?case by (auto split: if_splits dest: in_set_butlastD)
next
  case (Cons c t)
  show ?case
  proof (cases "c = 10")
    case True
    with Cons.prems have "l = cur @ [10] \<or> l \<in> set (lines_acc [] t)" by auto
    then show ?thesis
    proof
      assume "l = cur @ [10]"
      then show ?thesis using Cons.prems(1) True by (auto simp: butlast_append)
    next
      assume "l \<in> set (lines_acc [] t)"
      from Cons.IH [OF _ this] show ?thesis by auto
    qed
  next
    case False
    with Cons.prems have "l \<in> set (lines_acc (cur @ [c]) t)" by auto
    moreover have "10 \<notin> set (cur @ [c])" using Cons.prems(1) False by auto
    ultimately show ?thesis using Cons.IH [of "cur @ [c]"] by auto
  qed
qed

lemma strip_subset: "set (strip s) \<subseteq> set s"
  unfolding strip_def
  by (metis set_dropWhileD set_rev subsetI)

lemma strip_ends:
  assumes "strip s \<noteq> []"
  shows "\<not> isspace (hd (strip s)) \<and> \<not> isspace (last (strip s))"
proof -
  let ?d = "dropWhile isspace s"
  let ?r = "dropWhile isspace (rev ?d)"
  have r: "?r \<noteq> []" using assms by (simp add: strip_def)
  then have l: "\<not> isspace (hd ?r)" by (rule hd_dropWhile)
  have e1: "last (strip s) = hd ?r" using r by (simp add: strip_def last_rev)
  have dn: "?d \<noteq> []"
  proof
    assume e: "?d = []"
    have "?r = []" unfolding e by simp
    with r show False by simp
  qed
  then have dh: "\<not> isspace (hd ?d)" by (rule hd_dropWhile)
  have "hd (strip s) = last ?r" using r by (simp add: strip_def hd_rev)
  also have "last ?r = last (rev ?d)"
    using r by (metis dropWhile_eq_Nil_conv last_appendR takeWhile_dropWhile_id)
  also have "\<dots> = hd ?d" using dn by (simp add: last_rev)
  finally have e2: "hd (strip s) = hd ?d" .
  from e1 e2 l dh show ?thesis by simp
qed

lemma dropWhile_all: "\<forall>x \<in> set xs. P x \<Longrightarrow> dropWhile P xs = []"
  by (induction xs) auto

lemma strip_trailing_space: "isspace c \<Longrightarrow> strip (b @ [c]) = strip b"
proof -
  assume c: "isspace c"
  show ?thesis
  proof (cases "\<forall>x \<in> set b. isspace x")
    case True
    have "\<forall>x \<in> set (b @ [c]). isspace x" using True c by simp
    then have 1: "dropWhile isspace (b @ [c]) = []" by (rule dropWhile_all)
    have 2: "dropWhile isspace b = []" using True by (rule dropWhile_all)
    show ?thesis unfolding strip_def 1 2 by simp
  next
    case False
    then have "dropWhile isspace (b @ [c]) = dropWhile isspace b @ [c]"
      by (auto simp: dropWhile_append)
    then show ?thesis using c by (simp add: strip_def)
  qed
qed

lemma strip_line_no_nl:
  assumes "l \<noteq> []" "10 \<notin> set (butlast l)"
  shows "10 \<notin> set (strip l)"
proof (cases "last l = 10")
  case True
  then have "l = butlast l @ [10]" using assms(1) by (metis append_butlast_last_id)
  then have "strip l = strip (butlast l)"
    using strip_trailing_space [of 10 "butlast l"] by (simp add: isspace_def)
  then show ?thesis using strip_subset [of "butlast l"] assms(2) by auto
next
  case False
  then have "10 \<notin> set l" using assms by (metis append_butlast_last_id set_ConsD set_append UnE empty_iff set_empty list.set(2) insert_iff empty_set)
  then show ?thesis using strip_subset [of l] by auto
qed

lemma loaded_clean:
  assumes "h \<in> loaded f"
  shows "clean h"
proof (cases f)
  case None
  then show ?thesis using assms by (simp add: load_sent_hashes_def)
next
  case (Some raw)
  let ?t = "universal_newlines raw"
  from assms Some obtain l where l: "l \<in> set (file_lines ?t)" "h = strip l" "h \<noteq> []"
    by (auto simp: load_sent_hashes_def)
  from lines_acc_shape [of "[]" l ?t] l(1)
  have sh: "l \<noteq> []" "10 \<notin> set (butlast l)" "set l \<subseteq> set ?t"
    by (auto simp: file_lines_def)
  have "13 \<notin> set h"
    using strip_subset [of l] sh(3) universal_newlines_no_cr [of raw] l(2) by auto
  moreover have "10 \<notin> set h"
    using strip_line_no_nl [OF sh(1,2)] l(2) by simp
  moreover have "\<not> isspace (hd h) \<and> \<not> isspace (last h)"
    using strip_ends [of l] l(2,3) by simp
  ultimately show ?thesis using l(3) by (simp add: clean_def)
qed

lemma finite_loaded: "finite (loaded f)"
  by (cases f) (simp_all add: load_sent_hashes_def)

lemma load_save:
  assumes "finite S" "\<forall>h \<in> S. clean h"
  shows "loaded (save_sent_hashes S) = S"
proof -
  let ?hs = "sorted_list_of_set S"
  let ?t = "concat (map (\<lambda>h. h @ [10]) ?hs)"
  have s: "set ?hs = S" using assms(1) by simp
  have cl: "\<forall>h \<in> set ?hs. clean h" using assms(2) s by simp
  have "13 \<notin> set ?t" using cl by (auto simp: clean_def)
  then have u: "universal_newlines ?t = ?t" by (rule universal_newlines_id)
  have f: "file_lines ?t = map (\<lambda>h. h @ [10]) ?hs"
    by (rule file_lines_render) (use cl in \<open>auto simp: clean_def\<close>)
  have m: "map strip (map (\<lambda>h. h @ [10]) ?hs) = ?hs"
    using cl by (simp add: strip_clean map_idI)
  have "filter (\<lambda>l. l \<noteq> []) ?hs = ?hs"
    using cl by (auto simp: clean_def filter_id_conv)
  then show ?thesis
    using u f m s by (simp add: load_sent_hashes_def save_sent_hashes_def)
qed

lemma loaded_after_load: "loaded (snd (load_sent_hashes f)) = loaded f"
  by (cases f) (simp_all add: load_sent_hashes_def file_lines_def)

lemma hex_digits_range: "c \<in> set (hex_digits k n) \<Longrightarrow> 48 \<le> c \<and> c \<le> 102"
  by (induction k arbitrary: n) (auto simp: hexdigit_def)

lemma length_hex_digits: "length (hex_digits k n) = k"
  by (induction k arbitrary: n) auto

lemma hexdigest_clean: "clean (hexdigest n)"
proof -
  have ne: "hexdigest n \<noteq> []"
    using length_hex_digits [of 64 n] by (auto simp: hexdigest_def)
  have r: "\<forall>c \<in> set (hexdigest n). \<not> isspace c \<and> c \<noteq> 10 \<and> c \<noteq> 13"
    using hex_digits_range [of _ 64 n] by (fastforce simp: hexdigest_def isspace_def)
  show ?thesis
    using ne r hd_in_set [OF ne] last_in_set [OF ne] by (auto simp: clean_def)
qed

section \<open>The pipeline driver\<close>

lemma process_entry_Keep:
  "process_entry L now sent e = Keep c \<Longrightarrow> (\<exists>n. hash c = hexdigest n) \<and> hash c \<notin> sent
     \<and> hash_link L (link c) = Inr (hash c) \<and> fe_link e = Some (link c)"
  by (auto simp: process_entry_def Let_def hash_link_def get_or_def
           split: if_splits sum.splits option.splits)

lemma feed_loop_hash:
  "c \<in> set (feed_loop L clk sent i es) \<Longrightarrow>
     (\<exists>n. hash c = hexdigest n) \<and> hash c \<notin> sent \<and> hash_link L (link c) = Inr (hash c)"
proof (induction es arbitrary: i)
  case Nil
  then show ?case by simp
next
  case (Cons e es)
  show ?case
  proof (cases "process_entry L (clk i) sent e")
    case Skip
    with Cons show ?thesis by simp
  next
    case (Keep c')
    with Cons.prems have "c = c' \<or> c \<in> set (feed_loop L clk sent (Suc i) es)" by simp
    then show ?thesis using process_entry_Keep [OF Keep] Cons.IH by blast
  next
    case (Raises x)
    with Cons.prems show ?thesis by simp
  qed
qed

lemma fetch_rss_entries_hash:
  assumes "c \<in> set (fst (fetch_rss_entries L w f))"
  shows "(\<exists>n. hash c = hexdigest n) \<and> hash c \<notin> loaded f \<and> hash_link L (link c) = Inr (hash c)"
proof -
  from assms have ne: "rss_urls w \<noteq> []"
    by (auto simp: fetch_rss_entries_def split: if_splits)
  let ?all = "concat (map (\<lambda>u. fetch_single_feed L (clock w u) (feeds w u) (loaded f)) (completed w))"
  from assms ne have "c \<in> set ?all"
    by (auto simp: fetch_rss_entries_def Let_def split_beta split: if_splits dest: in_set_takeD)
  then obtain u where "c \<in> set (fetch_single_feed L (clock w u) (feeds w u) (loaded f))"
    by auto
  then show ?thesis
    by (auto simp: fetch_single_feed_def split: feed_result.splits dest: feed_loop_hash)
qed

lemma fetch_rss_entries_file:
  "fst (fetch_rss_entries L w f) \<noteq> [] \<Longrightarrow> snd (fetch_rss_entries L w f) = snd (load_sent_hashes f)"
  "snd (fetch_rss_entries L w f) = f \<or> snd (fetch_rss_entries L w f) = snd (load_sent_hashes f)"
  by (auto simp: fetch_rss_entries_def Let_def split_beta split: if_splits)

lemma enrich_from:
  "enrich m ss = Inr out \<Longrightarrow> o' \<in> set out \<Longrightarrow>
     \<exists>e l v r. m l = Some e \<and> o' = with_score e v r"
proof (induction ss arbitrary: out)
  case Nil
  then show ?case by simp
next
  case (Cons s ss)
  then show ?case
    by (auto split: option.splits sum.splits) blast+
qed

lemma enrich_length: "enrich m ss = Inr out \<Longrightarrow> length out \<le> length ss"
proof (induction ss arbitrary: out)
  case Nil
  then show ?case by simp
next
  case (Cons s ss)
  then show ?case
    by (fastforce split: option.splits sum.splits)
qed

lemma score_entries_from:
  assumes "score_entries k r es = Inr out"
  shows "length out \<le> 3 \<and> (\<forall>o' \<in> set out. \<exists>e \<in> set es. hash o' = hash e \<and> link o' = link e)"
proof (cases "es = []")
  case True
  with assms show ?thesis by (simp add: score_entries_def)
next
  case False
  with assms obtain res where e: "enrich (link_map es) (top_scores (get_or res [])) = Inr out"
    by (auto simp: score_entries_def split: sum.splits)
  have "length out \<le> 3"
    using enrich_length [OF e] by (simp add: top_scores_def TOP_N_def)
  moreover have "\<forall>o' \<in> set out. \<exists>e \<in> set es. hash o' = hash e \<and> link o' = link e"
  proof
    fix o' assume "o' \<in> set out"
    from enrich_from [OF e this] obtain c l v r' where
      "link_map es l = Some c" "o' = with_score c v r'" by blast
    then show "\<exists>e \<in> set es. hash o' = hash e \<and> link o' = link e"
      using link_map_Some [of es l c] by (auto simp: with_score_def)
  qed
  ultimately show ?thesis by blast
qed





lemma main_Finished:
  assumes "ending (main L w f) = Finished"
  shows "\<exists>cands tp rep pl d.
           fetch_rss_entries L w f = (cands, snd (load_sent_hashes f)) \<and> cands \<noteq> []
         \<and> score_entries (api_key w) (scoring_reply w) cands = Inr tp \<and> tp \<noteq> []
         \<and> generate_daily_report (api_key w) (synthesis_reply w) (report_time w) tp = Inr rep
         \<and> send_to_feishu L (webhook_url w) (secret w) (unix_time w) (sink w) rep = Inr (pl, d)
         \<and> main L w f = \<lparr>ending = Finished,
               store = save_sent_hashes (loaded f \<union> hash ` set tp),
               selected = tp, digest = Some rep, pushed = Some d\<rparr>"
proof -
  obtain cands f1 where f: "fetch_rss_entries L w f = (cands, f1)" by (cases "fetch_rss_entries L w f")
  from assms f have ne: "cands \<noteq> []" by (auto simp: main_def split: if_splits)
  then have f1: "f1 = snd (load_sent_hashes f)"
    using fetch_rss_entries_file(1) [of L w f] f by simp
  from assms f ne obtain tp where tp: "score_entries (api_key w) (scoring_reply w) cands = Inr tp" "tp \<noteq> []"
    by (auto simp: main_def split: if_splits sum.splits)
  from assms f ne tp obtain rep where
    rep: "generate_daily_report (api_key w) (synthesis_reply w) (report_time w) tp = Inr rep"
    by (auto simp: main_def split: if_splits sum.splits)
  from assms f ne tp rep obtain pl d where
    s: "send_to_feishu L (webhook_url w) (secret w) (unix_time w) (sink w) rep = Inr (pl, d)"
    by (auto simp: main_def split: if_splits sum.splits)
  have "main L w f = \<lparr>ending = Finished,
               store = save_sent_hashes (loaded f \<union> hash ` set tp),
               selected = tp, digest = Some rep, pushed = Some d\<rparr>"
    using f ne tp rep s f1 by (simp add: main_def split_beta loaded_after_load)
  with f f1 ne tp rep s show ?thesis by blast
qed

lemma main_not_Finished:
  assumes "ending (main L w f) \<noteq> Finished"
  shows "store (main L w f) = snd (fetch_rss_entries L w f)"
  using assms
  by (auto simp: main_def split_beta split: if_splits sum.splits prod.splits)

lemma selected_clean:
  assumes "ending (main L w f) = Finished" "h \<in> hash ` set (selected (main L w f))"
  shows "clean h"
proof -
  from main_Finished [OF assms(1)] obtain cands tp rep pl d where
    m: "fetch_rss_entries L w f = (cands, snd (load_sent_hashes f))"
       "score_entries (api_key w) (scoring_reply w) cands = Inr tp"
       "main L w f = \<lparr>ending = Finished,
               store = save_sent_hashes (loaded f \<union> hash ` set tp),
               selected = tp, digest = Some rep, pushed = Some d\<rparr>"
    by blast
  from assms(2) m(3) obtain o' where o: "o' \<in> set tp" "h = hash o'" by auto
  from score_entries_from [OF m(2)] o obtain e where e: "e \<in> set cands" "hash o' = hash e"
    by blast
  from e(1) m(1) have "e \<in> set (fst (fetch_rss_entries L w f))" by simp
  from fetch_rss_entries_hash [OF this] obtain n where "hash e = hexdigest n" by blast
  then show ?thesis using o(2) e(2) hexdigest_clean by simp
qed

text \<open>
  Claim C10. The store only grows. A run that reaches the last step writes the union of the
  set it has just loaded again and the fingerprints of the selected entries, one
  fingerprint per line in ascending order; loading the written file gives that union back.
  Every other run leaves the loaded set as it was, so no run removes a fingerprint.
\<close>

theorem store_grows:
  "loaded f \<subseteq> loaded (store (main L w f))
   \<and> (ending (main L w f) = Finished \<longrightarrow>
        store (main L w f)
          = save_sent_hashes (loaded (snd (fetch_rss_entries L w f))
                              \<union> hash ` set (selected (main L w f)))
        \<and> loaded (snd (fetch_rss_entries L w f)) = loaded f
        \<and> loaded (store (main L w f)) = loaded f \<union> hash ` set (selected (main L w f))
        \<and> (\<exists>hs. store (main L w f) = Some (concat (map (\<lambda>h. h @ [10]) hs))
               \<and> sorted hs \<and> distinct hs
               \<and> set hs = loaded f \<union> hash ` set (selected (main L w f))
               \<and> (\<forall>h \<in> set hs. h \<noteq> [] \<and> 10 \<notin> set h)))"
proof (cases "ending (main L w f) = Finished")
  case False
  from main_not_Finished [OF False] fetch_rss_entries_file(2) [of L w f]
  have "loaded (store (main L w f)) = loaded f"
    by (auto simp: loaded_after_load)
  with False show ?thesis by simp
next
  case True
  let ?S = "loaded f \<union> hash ` set (selected (main L w f))"
  let ?hs = "sorted_list_of_set ?S"
  from main_Finished [OF True] obtain cands tp rep pl d where
    m: "fetch_rss_entries L w f = (cands, snd (load_sent_hashes f))"
       "main L w f = \<lparr>ending = Finished,
               store = save_sent_hashes (loaded f \<union> hash ` set tp),
               selected = tp, digest = Some rep, pushed = Some d\<rparr>"
    by blast
  have st: "store (main L w f) = save_sent_hashes ?S" using m(2) by simp
  have fl: "loaded (snd (fetch_rss_entries L w f)) = loaded f"
    using m(1) by (simp add: loaded_after_load)
  have fin: "finite ?S" using finite_loaded by simp
  have cl: "\<forall>h \<in> ?S. clean h"
    using loaded_clean selected_clean [OF True] by blast
  have ld: "loaded (store (main L w f)) = ?S"
    unfolding st by (rule load_save [OF fin cl])
  have hs: "store (main L w f) = Some (concat (map (\<lambda>h. h @ [10]) ?hs))"
    by (simp add: st save_sent_hashes_def)
  have shs: "set ?hs = ?S" using fin by simp
  have "\<forall>h \<in> set ?hs. h \<noteq> [] \<and> 10 \<notin> set h"
    using cl shs by (auto simp: clean_def)
  then have ex: "\<exists>hs. store (main L w f) = Some (concat (map (\<lambda>h. h @ [10]) hs))
               \<and> sorted hs \<and> distinct hs \<and> set hs = ?S
               \<and> (\<forall>h \<in> set hs. h \<noteq> [] \<and> 10 \<notin> set h)"
    using hs shs by (intro exI [of _ ?hs]) simp
  from st fl ld ex show ?thesis by auto
qed

lemma loaded_after_run:
  assumes "ending (main L w f) = Finished"
  shows "loaded (store (main L w f)) = loaded f \<union> hash ` set (selected (main L w f))"
proof -
  let ?S = "loaded f \<union> hash ` set (selected (main L w f))"
  from main_Finished [OF assms] have st: "store (main L w f) = save_sent_hashes ?S"
    by auto
  have fin: "finite ?S" using finite_loaded by simp
  have cl: "\<forall>h \<in> ?S. clean h"
    using loaded_clean selected_clean [OF assms] by blast
  show ?thesis unfolding st by (rule load_save [OF fin cl])
qed


lemma feed_loop_entry:
  "c \<in> set (feed_loop L clk sent i es) \<Longrightarrow>
     \<exists>e \<in> set es. \<exists>now. process_entry L now sent e = Keep c"
proof (induction es arbitrary: i)
  case Nil
  then show ?case by simp
next
  case (Cons e es)
  show ?case
  proof (cases "process_entry L (clk i) sent e")
    case Skip
    with Cons show ?thesis by auto
  next
    case (Keep c')
    with Cons.prems have "c = c' \<or> c \<in> set (feed_loop L clk sent (Suc i) es)" by simp
    then show ?thesis using Keep Cons.IH by auto
  next
    case (Raises x)
    with Cons.prems show ?thesis by simp
  qed
qed

lemma fetch_rss_entries_entry:
  assumes "c \<in> set (fst (fetch_rss_entries L w f))"
  shows "\<exists>u \<in> set (completed w). \<exists>es. feeds w u = Feed es
           \<and> (\<exists>e \<in> set es. \<exists>now. process_entry L now (loaded f) e = Keep c)"
proof -
  from assms have ne: "rss_urls w \<noteq> []"
    by (auto simp: fetch_rss_entries_def split: if_splits)
  let ?all = "concat (map (\<lambda>u. fetch_single_feed L (clock w u) (feeds w u) (loaded f)) (completed w))"
  from assms ne have "c \<in> set ?all"
    by (auto simp: fetch_rss_entries_def Let_def split_beta split: if_splits dest: in_set_takeD)
  then obtain u where u: "u \<in> set (completed w)"
      "c \<in> set (fetch_single_feed L (clock w u) (feeds w u) (loaded f))"
    by auto
  then obtain es where es: "feeds w u = Feed es" "c \<in> set (feed_loop L (clock w u) (loaded f) 0 es)"
    by (cases "feeds w u") (auto simp: fetch_single_feed_def)
  from feed_loop_entry [OF es(2)] u(1) es(1) show ?thesis by blast
qed

text \<open>
  Claim C6, amended. After a run that persisted, the store holds the fingerprints it held
  before and those of the selected entries, and the next run's candidates contain no entry
  with such a fingerprint: no selected entry is a candidate again. No candidate at all
  survives when the fingerprint of every fetched entry is in the store, which holds when
  the first run selected every entry; entries that the first run fetched and did not
  select are not in the store and survive the filter again.
\<close>

theorem dedup_next_run:
  assumes "ending (main L w1 f) = Finished"
  shows "loaded (store (main L w1 f)) = loaded f \<union> hash ` set (selected (main L w1 f))
       \<and> (\<forall>c \<in> set (fst (fetch_rss_entries L w2 (store (main L w1 f)))).
             hash c \<notin> hash ` set (selected (main L w1 f)) \<and> hash c \<notin> loaded f
             \<and> link c \<notin> link ` set (selected (main L w1 f)))
       \<and> ((\<forall>u \<in> set (completed w2). \<forall>e \<in> set (case feeds w2 u of FetchFailed \<Rightarrow> [] | Feed es \<Rightarrow> es).
              \<forall>l. fe_link e = Some l \<longrightarrow> hash_link L l \<in> Inr ` loaded (store (main L w1 f)))
            \<longrightarrow> fst (fetch_rss_entries L w2 (store (main L w1 f))) = [])"
proof -
  let ?f2 = "store (main L w1 f)"
  let ?sel = "selected (main L w1 f)"
  note ld = loaded_after_run [OF assms]
  have a: "\<forall>c \<in> set (fst (fetch_rss_entries L w2 ?f2)).
             hash c \<notin> hash ` set ?sel \<and> hash c \<notin> loaded f \<and> link c \<notin> link ` set ?sel"
  proof
    fix c assume c: "c \<in> set (fst (fetch_rss_entries L w2 ?f2))"
    from fetch_rss_entries_hash [OF c] have h: "hash c \<notin> loaded ?f2"
        "hash_link L (link c) = Inr (hash c)" by auto
    have "link c \<notin> link ` set ?sel"
    proof
      assume "link c \<in> link ` set ?sel"
      then obtain o' where o: "o' \<in> set ?sel" "link c = link o'" by auto
      from main_Finished [OF assms] obtain cands where
        m: "fetch_rss_entries L w1 f = (cands, snd (load_sent_hashes f))"
           "score_entries (api_key w1) (scoring_reply w1) cands = Inr ?sel"
        by auto
      from score_entries_from [OF m(2)] o(1) obtain e where
        e: "e \<in> set cands" "hash o' = hash e" "link o' = link e" by blast
      from e(1) m(1) have "e \<in> set (fst (fetch_rss_entries L w1 f))" by simp
      from fetch_rss_entries_hash [OF this] have "hash_link L (link e) = Inr (hash e)" by blast
      with h(2) o(2) e(2,3) have "hash c = hash o'" by simp
      with o(1) h(1) ld show False by auto
    qed
    with h(1) ld show "hash c \<notin> hash ` set ?sel \<and> hash c \<notin> loaded f \<and> link c \<notin> link ` set ?sel"
      by auto
  qed
  have b: "(\<forall>u \<in> set (completed w2). \<forall>e \<in> set (case feeds w2 u of FetchFailed \<Rightarrow> [] | Feed es \<Rightarrow> es).
              \<forall>l. fe_link e = Some l \<longrightarrow> hash_link L l \<in> Inr ` loaded ?f2)
            \<longrightarrow> fst (fetch_rss_entries L w2 ?f2) = []"
  proof
    assume all: "\<forall>u \<in> set (completed w2). \<forall>e \<in> set (case feeds w2 u of FetchFailed \<Rightarrow> [] | Feed es \<Rightarrow> es).
              \<forall>l. fe_link e = Some l \<longrightarrow> hash_link L l \<in> Inr ` loaded ?f2"
    show "fst (fetch_rss_entries L w2 ?f2) = []"
    proof (rule ccontr)
      assume "fst (fetch_rss_entries L w2 ?f2) \<noteq> []"
      then obtain c where c: "c \<in> set (fst (fetch_rss_entries L w2 ?f2))"
        by (cases "fst (fetch_rss_entries L w2 ?f2)") auto
      from fetch_rss_entries_entry [OF c] obtain u es e now where
        u: "u \<in> set (completed w2)" "feeds w2 u = Feed es" "e \<in> set es"
           "process_entry L now (loaded ?f2) e = Keep c"
        by blast
      from process_entry_Keep [OF u(4)] have k: "hash c \<notin> loaded ?f2"
          "hash_link L (link c) = Inr (hash c)" "fe_link e = Some (link c)" by auto
      from all u(1,2,3) k(3) have "hash_link L (link c) \<in> Inr ` loaded ?f2" by auto
      with k(1,2) show False by auto
    qed
  qed
  from ld a b show ?thesis by blast
qed

section \<open>Concrete runs of the driver\<close>

lemma entry_kept:
  assumes "l \<noteq> []" "encode_utf8 l = Some l" "hexdigest (test_sha256 l) \<notin> sent"
  shows "process_entry test_libs (test_clock i) sent (entry l) = Keep (cand l)"
  using assms
  by (simp add: process_entry_def entry_def get_or_def hash_link_def cand_def
        is_recent_def test_libs_def test_parse_def naive_stamp_def assume_utc_def sub_aware_def
        timedelta_hours_def HOURS_WINDOW_def test_clock_def truncate_summary_def Let_def)

lemma entry_skipped:
  assumes "l \<noteq> []" "encode_utf8 l = Some l" "hexdigest (test_sha256 l) \<in> sent"
  shows "process_entry test_libs (test_clock i) sent (entry l) = Skip"
  using assms
  by (simp add: process_entry_def entry_def get_or_def hash_link_def test_libs_def Let_def)

lemma enc_letters:
  "encode_utf8 (ascii ''a'') = Some (ascii ''a'')" "encode_utf8 (ascii ''b'') = Some (ascii ''b'')"
  "encode_utf8 (ascii ''c'') = Some (ascii ''c'')" "encode_utf8 (ascii ''d'') = Some (ascii ''d'')"
  by (simp_all add: ascii_def utf8_char_def)

lemma letters_nonempty:
  "ascii ''a'' \<noteq> []" "ascii ''b'' \<noteq> []" "ascii ''c'' \<noteq> []" "ascii ''d'' \<noteq> []"
  by (simp_all add: ascii_def)

lemma fetch_world4:
  "fetch_rss_entries test_libs world4 None
     = ([cand (ascii ''a''), cand (ascii ''b''), cand (ascii ''c''), cand (ascii ''d'')], Some [])"
  by (simp add: fetch_rss_entries_def world4_def load_sent_hashes_def fetch_single_feed_def
        four_feeds_def four_entries_def feed_clock_def entry_kept enc_letters letters_nonempty
        MAX_CANDIDATES_def)


lemma fetch_world3:
  "fetch_rss_entries test_libs world3 None = (three_cands, Some [])"
  by (simp add: fetch_rss_entries_def world3_def world4_def load_sent_hashes_def
        fetch_single_feed_def three_feeds_def three_entries_def feed_clock_def entry_kept
        enc_letters letters_nonempty MAX_CANDIDATES_def three_cands_def)

lemma sorted_four_scores: "sort_scores four_scores = four_scores"
  by (simp add: sort_scores_def four_scores_def item_def score_key_def get_or_def)

lemma link_map_four:
  "link_map [cand (ascii ''a''), cand (ascii ''b''), cand (ascii ''c''), cand (ascii ''d'')]
     (ascii ''a'') = Some (cand (ascii ''a''))"
  "link_map [cand (ascii ''a''), cand (ascii ''b''), cand (ascii ''c''), cand (ascii ''d'')]
     (ascii ''b'') = Some (cand (ascii ''b''))"
  "link_map [cand (ascii ''a''), cand (ascii ''b''), cand (ascii ''c''), cand (ascii ''d'')]
     (ascii ''c'') = Some (cand (ascii ''c''))"
  by (simp_all add: link_map_def cand_def)

lemma score_world4:
  "score_entries (ascii ''k'') (Answer (Some four_scores))
     [cand (ascii ''a''), cand (ascii ''b''), cand (ascii ''c''), cand (ascii ''d'')]
   = Inr top3"
  by (simp add: score_entries_def call_json_def test_key get_or_def top_scores_def TOP_N_def
        sorted_four_scores)
     (simp add: four_scores_def item_def link_map_four top3_def)

lemma score_world3:
  "score_entries (ascii ''k'') (Answer (Some tied)) three_cands
     = Inr [with_score (cand (ascii ''c'')) 7 (ascii ''r''),
            with_score (cand (ascii ''b'')) 5 (ascii ''r''),
            with_score (cand (ascii ''a'')) 5 (ascii ''r'')]"
  by (simp add: score_entries_def call_json_def test_key three_nonempty get_or_def
        top_scores_def TOP_N_def sorted_tied)
     (simp add: item_def link_map_three)

lemma report_empty:
  "\<exists>rep. generate_daily_report (ascii ''k'') (Answer []) now tp = Inr rep \<and> card_check rep = Inr ()"
  by (simp add: generate_daily_report_def call_json_def test_key and_then_def
        validate_and_fix_report_def set_default_def has_key_def items_list_def get_or_def
        card_check_def Let_def)

lemma send_no_secret:
  "card_check rep = Inr () \<Longrightarrow> \<exists>pl. send_to_feishu L (ascii ''h'') [] t snk rep = Inr (pl, deliver snk)"
  by (simp add: send_to_feishu_def feishu_sign_def and_then_def Let_def ascii_def)

lemma main_world4:
  "ending (main test_libs world4 None) = Finished
   \<and> selected (main test_libs world4 None) = top3
   \<and> pushed (main test_libs world4 None) = Some (deliver always_failing)"
proof -
  obtain rep where rep: "generate_daily_report (ascii ''k'') (Answer []) 1704070800000000 top3 = Inr rep"
      "card_check rep = Inr ()"
    using report_empty by blast
  obtain pl where pl: "send_to_feishu test_libs (ascii ''h'') [] 1704070800 always_failing rep
      = Inr (pl, deliver always_failing)"
    using send_no_secret [OF rep(2)] by blast
  have t: "top3 \<noteq> []" by (simp add: top3_def)
  have w: "api_key world4 = ascii ''k''" "scoring_reply world4 = Answer (Some four_scores)"
     "synthesis_reply world4 = Answer []" "report_time world4 = 1704070800000000"
     "webhook_url world4 = ascii ''h''" "secret world4 = []" "unix_time world4 = 1704070800"
     "sink world4 = always_failing"
    by (simp_all add: world4_def)
  show ?thesis
    by (simp add: main_def fetch_world4 w score_world4 t rep pl split_beta)
qed

lemma last_hexdigest: "last (hexdigest n) = hexdigit (n mod 16)"
proof -
  have "(64::nat) = Suc 63" by simp
  then have "hexdigest n = hex_digits 63 (n div 16) @ [hexdigit (n mod 16)]"
    unfolding hexdigest_def by (simp only: hex_digits.simps)
  then show ?thesis by simp
qed

lemma test_sha256_letters:
  "test_sha256 (ascii ''a'') = 98" "test_sha256 (ascii ''b'') = 99"
  "test_sha256 (ascii ''c'') = 100" "test_sha256 (ascii ''d'') = 101"
  by (simp_all add: test_sha256_def ascii_def)

lemma digest_d_fresh:
  "hexdigest (test_sha256 (ascii ''d''))
     \<notin> {hexdigest (test_sha256 (ascii ''a'')), hexdigest (test_sha256 (ascii ''b'')),
         hexdigest (test_sha256 (ascii ''c''))}"
proof -
  have "last (hexdigest 101) \<noteq> last (hexdigest 98)" "last (hexdigest 101) \<noteq> last (hexdigest 99)"
       "last (hexdigest 101) \<noteq> last (hexdigest 100)"
    by (simp_all add: last_hexdigest hexdigit_def)
  then show ?thesis by (auto simp: test_sha256_letters)
qed

lemma hash_top3:
  "hash ` set top3 = {hexdigest (test_sha256 (ascii ''a'')), hexdigest (test_sha256 (ascii ''b'')),
         hexdigest (test_sha256 (ascii ''c''))}"
  by (auto simp: top3_def with_score_def cand_def)

lemma loaded_None: "loaded None = {}"
  by (simp add: load_sent_hashes_def)

lemma loaded_store_world4:
  "loaded (store (main test_libs world4 None))
     = {hexdigest (test_sha256 (ascii ''a'')), hexdigest (test_sha256 (ascii ''b'')),
        hexdigest (test_sha256 (ascii ''c''))}"
  using loaded_after_run [of test_libs world4 None] main_world4
  by (simp add: loaded_None hash_top3)

lemma fetch_again_world4:
  assumes "loaded f = {hexdigest (test_sha256 (ascii ''a'')), hexdigest (test_sha256 (ascii ''b'')),
        hexdigest (test_sha256 (ascii ''c''))}"
  shows "fst (fetch_rss_entries test_libs world4 f) = [cand (ascii ''d'')]"
  using digest_d_fresh
  by (simp add: fetch_rss_entries_def world4_def split_beta assms fetch_single_feed_def
        four_feeds_def four_entries_def feed_clock_def entry_kept entry_skipped enc_letters
        letters_nonempty MAX_CANDIDATES_def)

theorem dedup_counterexample:
  "ending (main test_libs world4 None) = Finished
   \<and> fst (fetch_rss_entries test_libs world4 (store (main test_libs world4 None)))
       = [cand (ascii ''d'')]"
  using main_world4 fetch_again_world4 [OF loaded_store_world4] by simp

lemma main_world3:
  "ending (main test_libs world3 None) = Finished
   \<and> selected (main test_libs world3 None)
       = [with_score (cand (ascii ''c'')) 7 (ascii ''r''),
          with_score (cand (ascii ''b'')) 5 (ascii ''r''),
          with_score (cand (ascii ''a'')) 5 (ascii ''r'')]"
proof -
  let ?tp = "[with_score (cand (ascii ''c'')) 7 (ascii ''r''),
          with_score (cand (ascii ''b'')) 5 (ascii ''r''),
          with_score (cand (ascii ''a'')) 5 (ascii ''r'')]"
  obtain rep where rep: "generate_daily_report (ascii ''k'') (Answer []) 1704070800000000 ?tp = Inr rep"
      "card_check rep = Inr ()"
    using report_empty by blast
  obtain pl where pl: "send_to_feishu test_libs (ascii ''h'') [] 1704070800 always_failing rep
      = Inr (pl, deliver always_failing)"
    using send_no_secret [OF rep(2)] by blast
  have w: "api_key world3 = ascii ''k''" "scoring_reply world3 = Answer (Some tied)"
     "synthesis_reply world3 = Answer []" "report_time world3 = 1704070800000000"
     "webhook_url world3 = ascii ''h''" "secret world3 = []" "unix_time world3 = 1704070800"
     "sink world3 = always_failing"
    by (simp_all add: world3_def world4_def)
  show ?thesis
    by (simp add: main_def fetch_world3 w score_world3 three_nonempty rep pl split_beta)
qed

theorem store_grows_witness:
  "ending (main test_libs world4 None) = Finished
   \<and> selected (main test_libs world4 None) = top3
   \<and> loaded (store (main test_libs world4 None))
       = loaded None \<union> hash ` set (selected (main test_libs world4 None))
   \<and> loaded None \<subseteq> loaded (store (main test_libs world4 None))"
  using store_grows [of None test_libs world4] main_world4 by blast




lemma hash_link_letters:
  "hash_link test_libs (ascii ''a'') = Inr (hexdigest (test_sha256 (ascii ''a'')))"
  "hash_link test_libs (ascii ''b'') = Inr (hexdigest (test_sha256 (ascii ''b'')))"
  "hash_link test_libs (ascii ''c'') = Inr (hexdigest (test_sha256 (ascii ''c'')))"
  by (simp_all add: hash_link_def enc_letters test_libs_def)

theorem dedup_next_run_witness:
  "ending (main test_libs world3 None) = Finished
   \<and> loaded (store (main test_libs world3 None))
       = {hexdigest (test_sha256 (ascii ''a'')), hexdigest (test_sha256 (ascii ''b'')),
          hexdigest (test_sha256 (ascii ''c''))}
   \<and> fst (fetch_rss_entries test_libs world3 (store (main test_libs world3 None))) = []"
proof -
  let ?f2 = "store (main test_libs world3 None)"
  let ?S = "{hexdigest (test_sha256 (ascii ''a'')), hexdigest (test_sha256 (ascii ''b'')),
          hexdigest (test_sha256 (ascii ''c''))}"
  have e: "ending (main test_libs world3 None) = Finished" using main_world3 by simp
  note t = dedup_next_run [OF e, of world3]
  have s: "loaded None \<union> hash ` set (selected (main test_libs world3 None)) = ?S"
    using main_world3 by (auto simp: loaded_None with_score_def cand_def)
  from t s have ld: "loaded ?f2 = ?S" by simp
  have "\<forall>u \<in> set (completed world3).
          \<forall>e \<in> set (case feeds world3 u of FetchFailed \<Rightarrow> [] | Feed es \<Rightarrow> es).
            \<forall>l. fe_link e = Some l \<longrightarrow> hash_link test_libs l \<in> Inr ` loaded ?f2"
    unfolding ld
    by (simp add: world3_def world4_def three_feeds_def three_entries_def entry_def
          hash_link_letters)
  with t have "fst (fetch_rss_entries test_libs world3 ?f2) = []" by blast
  with e ld show ?thesis by blast
qed

section \<open>The calendar\<close>

lemma div_pred:
  fixes y k :: int
  assumes "0 < k"
  shows "(y - 1) div k = y div k - (if y mod k = 0 then 1 else 0)"
proof (cases "y mod k = 0")
  case True
  have "y - 1 = k * (y div k - 1) + (k - 1)"
    using True mult_div_mod_eq [of k y] by (simp add: algebra_simps)
  then have "(y - 1) div k = y div k - 1"
    using assms by (intro int_div_pos_eq [where r = "k - 1"]) simp_all
  with True show ?thesis by simp
next
  case False
  have p: "0 \<le> y mod k" "y mod k < k" using assms by simp_all
  have "y - 1 = k * (y div k) + (y mod k - 1)"
    using mult_div_mod_eq [of k y] by simp
  then have "(y - 1) div k = y div k"
    using p False by (intro int_div_pos_eq [where r = "y mod k - 1"]) simp_all
  with False show ?thesis by simp
qed

lemma m100: "(y::int) mod 100 = 0 \<Longrightarrow> y mod 4 = 0"
proof -
  assume "y mod 100 = 0"
  then have "100 dvd y" by (simp add: dvd_eq_mod_eq_0)
  moreover have "(4::int) dvd 100" by simp
  ultimately have "4 dvd y" by (rule dvd_trans [rotated])
  then show ?thesis by (simp add: dvd_eq_mod_eq_0)
qed

lemma m400: "(y::int) mod 400 = 0 \<Longrightarrow> y mod 100 = 0"
proof -
  assume "y mod 400 = 0"
  then have "400 dvd y" by (simp add: dvd_eq_mod_eq_0)
  moreover have "(100::int) dvd 400" by simp
  ultimately have "100 dvd y" by (rule dvd_trans [rotated])
  then show ?thesis by (simp add: dvd_eq_mod_eq_0)
qed

lemma leap_arith:
  fixes y a b c :: int
  assumes "p100 \<longrightarrow> p4" "p400 \<longrightarrow> p100"
  shows "y * 365 + a - b + c
     = (y - 1) * 365 + (a - (if p4 then 1 else 0)) - (b - (if p100 then 1 else 0))
         + (c - (if p400 then 1 else 0))
         + (if p4 \<and> (\<not> p100 \<or> p400) then 366 else 365)"
  using assms by (cases p4; cases p100; cases p400) (simp_all add: algebra_simps)

lemma days_before_year_Suc: "days_before_year (y + 1) = days_before_year y + days_in_year y"
proof -
  have d: "(y - 1) div 4 = y div 4 - (if y mod 4 = 0 then 1 else 0)"
    "(y - 1) div 100 = y div 100 - (if y mod 100 = 0 then 1 else 0)"
    "(y - 1) div 400 = y div 400 - (if y mod 400 = 0 then 1 else 0)"
    by (rule div_pred, simp)+
  have i: "y mod 100 = 0 \<longrightarrow> y mod 4 = 0" "y mod 400 = 0 \<longrightarrow> y mod 100 = 0"
    using m100 [of y] m400 [of y] by blast+
  have h: "y * 365 + y div 4 - y div 100 + y div 400
     = (y - 1) * 365 + (y - 1) div 4 - (y - 1) div 100 + (y - 1) div 400
         + (if y mod 4 = 0 \<and> (y mod 100 \<noteq> 0 \<or> y mod 400 = 0) then 366 else 365)"
    unfolding d by (rule leap_arith [OF i])
  show ?thesis
    unfolding days_before_year_def days_in_year_def is_leap_def add_diff_cancel_right'
    by (rule h)
qed

lemma year_of_inv:
  "year_of y n = (y', r) \<Longrightarrow>
     days_before_year y + n = days_before_year y' + r \<and> 0 \<le> r \<and> r < days_in_year y'"
proof (induction y n rule: year_of.induct)
  case (1 y n)
  show ?case
  proof (cases "n < 0")
    case True
    then have "year_of y n = year_of (y - 1) (n + days_in_year (y - 1))"
      by (simp add: year_of.simps [of y n])
    with 1(3) have "year_of (y - 1) (n + days_in_year (y - 1)) = (y', r)"
      by simp
    from 1(1) [OF True this] days_before_year_Suc [of "y - 1"] show ?thesis
      by simp
  next
    case False
    show ?thesis
    proof (cases "days_in_year y \<le> n")
      case True
      with False have "year_of y n = year_of (y + 1) (n - days_in_year y)"
        by (simp add: year_of.simps [of y n])
      with 1(3) have "year_of (y + 1) (n - days_in_year y) = (y', r)"
        by simp
      from 1(2) [OF False True this] days_before_year_Suc [of y] show ?thesis
        by simp
    next
      case f: False
      with False have "year_of y n = (y, n)"
        by (simp add: year_of.simps [of y n])
      with 1(3) False f show ?thesis
        by simp
    qed
  qed
qed

lemma month_cases:
  "1 \<le> m \<Longrightarrow> m \<le> 12 \<Longrightarrow>
     m = 1 \<or> m = 2 \<or> m = 3 \<or> m = 4 \<or> m = 5 \<or> m = 6 \<or> m = 7 \<or> m = 8 \<or> m = 9
       \<or> m = 10 \<or> m = 11 \<or> m = (12::int)"
  by presburger

lemma days_before_month_Suc:
  assumes "1 \<le> m" "m < 12"
  shows "days_before_month y (m + 1) = days_before_month y m + days_in_month y m"
proof -
  from assms month_cases [of m]
  have "m = 1 \<or> m = 2 \<or> m = 3 \<or> m = 4 \<or> m = 5 \<or> m = 6 \<or> m = 7 \<or> m = 8 \<or> m = 9
       \<or> m = 10 \<or> m = 11"
    by simp
  then show ?thesis
    by (elim disjE) (simp_all add: days_before_month_def days_in_month_def)
qed

lemma days_before_month_12: "days_before_month y 12 + days_in_month y 12 = days_in_year y"
  by (simp add: days_before_month_def days_in_month_def days_in_year_def)

lemma month_of_inv:
  "month_of y m n = (m', d) \<Longrightarrow> 1 \<le> m \<Longrightarrow> m \<le> 12 \<Longrightarrow> 0 \<le> n \<Longrightarrow>
     days_before_month y m + n < days_in_year y \<Longrightarrow>
     days_before_month y m + n = days_before_month y m' + d
       \<and> 1 \<le> m' \<and> m' \<le> 12 \<and> 0 \<le> d \<and> d < days_in_month y m'"
proof (induction y m n rule: month_of.induct)
  case (1 y m n)
  show ?case
  proof (cases "m < 12 \<and> days_in_month y m \<le> n")
    case True
    then have "month_of y m n = month_of y (m + 1) (n - days_in_month y m)"
      by (simp add: month_of.simps [of y m n])
    with 1(2) have s: "month_of y (m + 1) (n - days_in_month y m) = (m', d)"
      by simp
    from True have lt: "m < 12" by simp
    note suc = days_before_month_Suc [OF 1(3) lt, of y]
    have "days_before_month y (m + 1) + (n - days_in_month y m) < days_in_year y"
      using suc 1(6) by simp
    from 1(1) [OF True s _ _ _ this] True 1(3) suc
    show ?thesis by simp
  next
    case False
    then have "month_of y m n = (m, n)"
      by (auto simp: month_of.simps [of y m n])
    with 1(2) have e: "m' = m" "d = n" by simp_all
    have "n < days_in_month y m"
    proof (cases "m < 12")
      case True with False show ?thesis by simp
    next
      case f: False
      with 1(4) have "m = 12" by simp
      then show ?thesis
        using 1(6) days_before_month_12 [of y] by simp
    qed
    with e 1(3,4,5) show ?thesis by simp
  qed
qed

lemma civil_date_ord:
  assumes "civil_date n = (y, m, d)"
  shows "1 \<le> m \<and> m \<le> 12 \<and> 1 \<le> d \<and> d \<le> days_in_month y m
         \<and> ymd2ord y m d = ymd2ord 1970 1 1 + n"
proof -
  obtain r where r: "year_of 1970 n = (y, r)" and md: "month_of y 1 r = (m, d - 1)"
    using assms by (auto simp: civil_date_def split: prod.splits)
  from year_of_inv [OF r] have yi: "days_before_year 1970 + n = days_before_year y + r"
    "0 \<le> r" "r < days_in_year y" by simp_all
  have z: "\<And>y. days_before_month y 1 = 0" by (simp add: days_before_month_def)
  from month_of_inv [OF md] yi z
  have "r = days_before_month y m + (d - 1) \<and> 1 \<le> m \<and> m \<le> 12 \<and> 0 \<le> d - 1 \<and> d - 1 < days_in_month y m"
    by simp
  with yi z show ?thesis by (simp add: ymd2ord_def)
qed

lemma today_civil:
  "\<exists>y m d. today now = ymd y m d \<and> 1 \<le> m \<and> m \<le> 12 \<and> 1 \<le> d \<and> d \<le> days_in_month y m
     \<and> ymd2ord y m d = ymd2ord 1970 1 1 + (now + timedelta_hours 8) div 86400000000"
proof -
  obtain y m d where c: "civil_date ((now + timedelta_hours 8) div 86400000000) = (y, m, d)"
    by (cases "civil_date ((now + timedelta_hours 8) div 86400000000)") auto
  then have "today now = ymd y m d"
    by (simp add: today_def strftime_ymd_def datetime_now_def)
  with civil_date_ord [OF c] show ?thesis by blast
qed

lemma today_new_year: "today 1704038400000000 = ascii ''2024-01-01''"
  by (simp add: today_def strftime_ymd_def datetime_now_def timedelta_hours_def civil_date_def
        year_of.simps month_of.simps days_in_year_def days_in_month_def is_leap_def
        ymd_def zfill_def str_int_def dec.simps ascii_def)

lemma today_old_year: "today 1704038399999999 = ascii ''2023-12-31''"
  by (simp add: today_def strftime_ymd_def datetime_now_def timedelta_hours_def civil_date_def
        year_of.simps month_of.simps days_in_year_def days_in_month_def is_leap_def
        ymd_def zfill_def str_int_def dec.simps ascii_def)

section \<open>Repairing the digest\<close>

lemma map_of_dict_set: "map_of (dict_set k v d) k' = (if k' = k then Some v else map_of d k')"
  by (induction d) auto

lemma map_of_set_default:
  "map_of (set_default k v d) k' = (if k' = k \<and> map_of d k = None then Some v else map_of d k')"
  by (auto simp: set_default_def has_key_def map_of_dict_set)

lemma fix_item_obj:
  "\<exists>d'. fix_item (JObj d) = Inr (JObj d')
        \<and> (\<forall>k. map_of d' k = (case map_of d k of None \<Rightarrow> placeholder k | Some v \<Rightarrow> Some v))"
  by (auto simp: fix_item_def fill_def and_then_def map_of_set_default placeholder_def
           split: option.splits)

lemma fix_items_obj:
  assumes "list_all is_object xs"
  shows "\<exists>ys. fix_items xs = Inr ys \<and> length ys = length xs
           \<and> (\<forall>i < length xs. \<exists>d d'. xs ! i = JObj d \<and> ys ! i = JObj d'
                 \<and> (\<forall>k. map_of d' k = (case map_of d k of None \<Rightarrow> placeholder k | Some v \<Rightarrow> Some v)))"
  using assms
proof (induction xs)
  case Nil
  then show ?case by simp
next
  case (Cons x xs)
  then obtain d where d: "x = JObj d" by (cases x) auto
  from fix_item_obj [of d] obtain d' where d': "fix_item (JObj d) = Inr (JObj d')"
     "\<forall>k. map_of d' k = (case map_of d k of None \<Rightarrow> placeholder k | Some v \<Rightarrow> Some v)" by blast
  from Cons obtain ys where ys: "fix_items xs = Inr ys" "length ys = length xs"
     "\<forall>i < length xs. \<exists>d d'. xs ! i = JObj d \<and> ys ! i = JObj d'
                 \<and> (\<forall>k. map_of d' k = (case map_of d k of None \<Rightarrow> placeholder k | Some v \<Rightarrow> Some v))"
    by auto
  have "fix_items (x # xs) = Inr (JObj d' # ys)"
    using d d'(1) ys(1) by (simp add: and_then_def)
  moreover have "\<forall>i < length (x # xs). \<exists>e e'. (x # xs) ! i = JObj e \<and> (JObj d' # ys) ! i = JObj e'
                 \<and> (\<forall>k. map_of e' k = (case map_of e k of None \<Rightarrow> placeholder k | Some v \<Rightarrow> Some v))"
  proof (intro allI impI)
    fix i assume "i < length (x # xs)"
    then show "\<exists>e e'. (x # xs) ! i = JObj e \<and> (JObj d' # ys) ! i = JObj e'
                 \<and> (\<forall>k. map_of e' k = (case map_of e k of None \<Rightarrow> placeholder k | Some v \<Rightarrow> Some v))"
      using d d'(2) ys(3) by (cases i) auto
  qed
  ultimately show ?case using ys(2) by auto
qed

text \<open>
  Claim C4, amended. The repair never rejects a digest whose items are objects. A missing
  \<open>date\<close> becomes the current UTC+8 civil date: the text \<open>YYYY-MM-DD\<close> of the valid
  calendar date \<open>y-m-d\<close> whose day is the one that contains the instant eight hours after
  the clock reading, counted from 1970-01-01. A missing \<open>theme\<close> becomes the default
  theme, missing or non-list \<open>items\<close> the empty list. In each item the four fields \<open>title\<close>,
  \<open>source_type\<close>, \<open>erp_relevance\<close> and \<open>summary\<close> get their placeholder when missing;
  every other field, among them \<open>publish_date\<close>, \<open>source_name\<close>, \<open>key_facts\<close>,
  \<open>implementation_method\<close>, \<open>exploration_direction\<close> and \<open>link\<close>, is left as it is,
  present or missing.
\<close>

theorem repair_fills_four:
  assumes "list_all is_object (get_or (items_list report) [])"
  shows "\<exists>r' ys y m d. validate_and_fix_report now report = Inr r'
     \<and> map_of r' (ascii ''date'')
         = Some (get_or (map_of report (ascii ''date'')) (JStr (ymd y m d)))
     \<and> today now = ymd y m d
     \<and> 1 \<le> m \<and> m \<le> 12 \<and> 1 \<le> d \<and> d \<le> days_in_month y m
     \<and> ymd2ord y m d = ymd2ord 1970 1 1 + (now + 8 * 3600 * 1000000) div 86400000000
     \<and> map_of r' (ascii ''theme'')
         = Some (get_or (map_of report (ascii ''theme'')) (JStr default_theme))
     \<and> map_of r' (ascii ''items'') = Some (JArr ys)
     \<and> length ys = length (get_or (items_list report) [])
     \<and> (\<forall>i < length ys. \<exists>d d'. get_or (items_list report) [] ! i = JObj d \<and> ys ! i = JObj d'
           \<and> (\<forall>k. map_of d' k = (case map_of d k of None \<Rightarrow> placeholder k | Some v \<Rightarrow> Some v)))
     \<and> (\<forall>k. k \<noteq> ascii ''date'' \<and> k \<noteq> ascii ''theme'' \<and> k \<noteq> ascii ''items'' \<longrightarrow>
            map_of r' k = map_of report k)
     \<and> placeholder (ascii ''title'') = Some (JStr default_title)
     \<and> placeholder (ascii ''source_type'') = Some (JStr default_source_type)
     \<and> placeholder (ascii ''erp_relevance'') = Some (JStr default_erp_relevance)
     \<and> placeholder (ascii ''summary'') = Some (JStr default_summary)
     \<and> placeholder (ascii ''publish_date'') = None
     \<and> placeholder (ascii ''source_name'') = None
     \<and> placeholder (ascii ''key_facts'') = None
     \<and> placeholder (ascii ''implementation_method'') = None
     \<and> placeholder (ascii ''exploration_direction'') = None
     \<and> placeholder (ascii ''link'') = None"
proof -
  let ?xs = "get_or (items_list report) []"
  let ?r1 = "set_default (ascii ''date'') (JStr (today now)) report"
  let ?r2 = "set_default (ascii ''theme'') (JStr default_theme) ?r1"
  let ?r3 = "if items_list ?r2 = None then dict_set (ascii ''items'') (JArr []) ?r2 else ?r2"
  have m2: "map_of ?r2 (ascii ''items'') = map_of report (ascii ''items'')"
    by (simp add: map_of_set_default)
  have i2: "items_list ?r2 = items_list report"
    unfolding items_list_def m2 ..
  have i3: "get_or (items_list ?r3) [] = ?xs"
  proof (cases "items_list report")
    case None
    then have "?r3 = dict_set (ascii ''items'') (JArr []) ?r2" using i2 by simp
    then have "items_list ?r3 = Some []"
      by (simp add: items_list_def map_of_dict_set)
    then show ?thesis using None by (simp add: get_or_def)
  next
    case (Some xs)
    then have "?r3 = ?r2" using i2 by simp
    then show ?thesis using i2 by simp
  qed
  from fix_items_obj [OF assms] obtain ys where ys: "fix_items ?xs = Inr ys" "length ys = length ?xs"
     "\<forall>i < length ?xs. \<exists>d d'. ?xs ! i = JObj d \<and> ys ! i = JObj d'
           \<and> (\<forall>k. map_of d' k = (case map_of d k of None \<Rightarrow> placeholder k | Some v \<Rightarrow> Some v))"
    by blast
  let ?r' = "dict_set (ascii ''items'') (JArr ys) ?r3"
  have v: "validate_and_fix_report now report = Inr ?r'"
    using ys(1) i3 by (simp add: validate_and_fix_report_def Let_def and_then_def)
  have a: "map_of ?r' (ascii ''date'')
             = Some (get_or (map_of report (ascii ''date'')) (JStr (today now)))"
    by (auto simp: map_of_dict_set map_of_set_default get_or_def split: option.splits)
  have b: "map_of ?r' (ascii ''theme'')
         = Some (get_or (map_of report (ascii ''theme'')) (JStr default_theme))"
    by (auto simp: map_of_dict_set map_of_set_default get_or_def split: option.splits)
  have c: "map_of ?r' (ascii ''items'') = Some (JArr ys)"
    by (simp add: map_of_dict_set)
  have d: "\<forall>k. k \<noteq> ascii ''date'' \<and> k \<noteq> ascii ''theme'' \<and> k \<noteq> ascii ''items'' \<longrightarrow>
            map_of ?r' k = map_of report k"
    by (simp add: map_of_dict_set map_of_set_default)
  have p: "placeholder (ascii ''title'') = Some (JStr default_title)
     \<and> placeholder (ascii ''source_type'') = Some (JStr default_source_type)
     \<and> placeholder (ascii ''erp_relevance'') = Some (JStr default_erp_relevance)
     \<and> placeholder (ascii ''summary'') = Some (JStr default_summary)
     \<and> placeholder (ascii ''publish_date'') = None
     \<and> placeholder (ascii ''source_name'') = None
     \<and> placeholder (ascii ''key_facts'') = None
     \<and> placeholder (ascii ''implementation_method'') = None
     \<and> placeholder (ascii ''exploration_direction'') = None
     \<and> placeholder (ascii ''link'') = None"
    by (simp add: placeholder_def)
  from today_civil [of now] obtain y m dd where
    t: "today now = ymd y m dd" "1 \<le> m" "m \<le> 12" "1 \<le> dd" "dd \<le> days_in_month y m"
       "ymd2ord y m dd = ymd2ord 1970 1 1 + (now + 8 * 3600 * 1000000) div 86400000000"
    by (auto simp: timedelta_hours_def)
  from a t(1) have a': "map_of ?r' (ascii ''date'')
             = Some (get_or (map_of report (ascii ''date'')) (JStr (ymd y m dd)))"
    by simp
  from v a' t b c d p ys(2,3) show ?thesis
    by (intro exI [of _ ?r'] exI [of _ ys] exI [of _ y] exI [of _ m] exI [of _ dd]) simp
qed

lemma bare_repaired:
  "validate_and_fix_report 1704038400000000 bare_report
     = Inr [(ascii ''items'',
             JArr [JObj [(ascii ''title'', JStr default_title),
                         (ascii ''source_type'', JStr default_source_type),
                         (ascii ''erp_relevance'', JStr default_erp_relevance),
                         (ascii ''summary'', JStr default_summary)]]),
            (ascii ''date'', JStr (ascii ''2024-01-01'')),
            (ascii ''theme'', JStr default_theme)]"
  by (simp add: validate_and_fix_report_def bare_report_def set_default_def has_key_def
        items_list_def get_or_def and_then_def fix_item_def fill_def Let_def today_new_year)

theorem repair_fills_four_witness:
  "list_all is_object (get_or (items_list bare_report) [])
   \<and> (\<exists>r'. validate_and_fix_report 1704038400000000 bare_report = Inr r'
          \<and> map_of r' (ascii ''date'') = Some (JStr (ascii ''2024-01-01''))
          \<and> map_of r' (ascii ''theme'') = Some (JStr default_theme))
   \<and> (\<exists>r'. validate_and_fix_report 1704038399999999 bare_report = Inr r'
          \<and> map_of r' (ascii ''date'') = Some (JStr (ascii ''2023-12-31'')))
   \<and> ymd2ord 1970 1 1 = 719163 \<and> ymd2ord 2024 1 1 = 738886
   \<and> ymd 2024 1 1 = ascii ''2024-01-01''"
proof -
  have h: "list_all is_object (get_or (items_list bare_report) [])"
    by (simp add: bare_report_def items_list_def get_or_def)
  have m: "map_of bare_report (ascii ''date'') = None" "map_of bare_report (ascii ''theme'') = None"
    by (simp_all add: bare_report_def)
  from repair_fills_four [OF h, of 1704038400000000] m
  have a: "\<exists>r'. validate_and_fix_report 1704038400000000 bare_report = Inr r'
          \<and> map_of r' (ascii ''date'') = Some (JStr (ascii ''2024-01-01''))
          \<and> map_of r' (ascii ''theme'') = Some (JStr default_theme)"
    by (auto simp: get_or_def today_new_year [symmetric])
  from repair_fills_four [OF h, of 1704038399999999] m
  have b: "\<exists>r'. validate_and_fix_report 1704038399999999 bare_report = Inr r'
          \<and> map_of r' (ascii ''date'') = Some (JStr (ascii ''2023-12-31''))"
    by (auto simp: get_or_def today_old_year [symmetric])
  have o: "ymd2ord 1970 1 1 = 719163 \<and> ymd2ord 2024 1 1 = 738886"
    by (simp add: ymd2ord_def days_before_year_def days_before_month_def)
  have y: "ymd 2024 1 1 = ascii ''2024-01-01''"
    by (simp add: ymd_def zfill_def str_int_def dec.simps ascii_def)
  from h a b o y show ?thesis by blast
qed

theorem repair_counterexample:
  "validate_and_fix_report 1704038400000000 bare_report
     = Inr [(ascii ''items'',
             JArr [JObj [(ascii ''title'', JStr default_title),
                         (ascii ''source_type'', JStr default_source_type),
                         (ascii ''erp_relevance'', JStr default_erp_relevance),
                         (ascii ''summary'', JStr default_summary)]]),
            (ascii ''date'', JStr (ascii ''2024-01-01'')),
            (ascii ''theme'', JStr default_theme)]
   \<and> map_of [(ascii ''title'', JStr default_title),
              (ascii ''source_type'', JStr default_source_type),
              (ascii ''erp_relevance'', JStr default_erp_relevance),
              (ascii ''summary'', JStr default_summary)] (ascii ''publish_date'') = None
   \<and> map_of [(ascii ''title'', JStr default_title),
              (ascii ''source_type'', JStr default_source_type),
              (ascii ''erp_relevance'', JStr default_erp_relevance),
              (ascii ''summary'', JStr default_summary)] (ascii ''link'') = None"
  using bare_repaired by simp

section \<open>The signature\<close>

text \<open>
  Claim C9, amended. With a secret, the signature is the base64 text of an HMAC-SHA256
  whose key is the UTF-8 encoding of \<open>"{timestamp}\n{secret}"\<close> and whose message is
  empty: the string is the key, not the data the HMAC is computed over. Without a secret
  the signature is the empty string. The payload carries the timestamp and the signature.
\<close>

theorem feishu_signature:
  "string_to_sign ts scrt = ts @ [10] @ scrt
   \<and> (scrt = [] \<longrightarrow> feishu_sign L ts scrt = Inr [])
   \<and> (scrt \<noteq> [] \<and> encode_utf8 (string_to_sign ts scrt) = Some k \<longrightarrow>
        feishu_sign L ts scrt = Inr (b64encode L (hmac_sha256 L k []))
        \<and> hmac_key (feishu_hmac_new k) = k \<and> hmac_msg (feishu_hmac_new k) = [])
   \<and> (send_to_feishu L url scrt now_s snk rep = Inr (Some pl, d) \<longrightarrow>
        p_timestamp pl = str_int now_s
        \<and> feishu_sign L (str_int now_s) scrt = Inr (p_sign pl))"
  by (auto simp: string_to_sign_def feishu_sign_def hmac_digest_def feishu_hmac_new_def
        send_to_feishu_def and_then_def Let_def split: if_splits sum.splits)

lemma str_int_now: "str_int 1704070800 = ascii ''1704070800''"
  by (simp add: str_int_def dec.simps ascii_def)

lemma sign_key: "encode_utf8 (string_to_sign (ascii ''1704070800'') (ascii ''s''))
                   = Some (ascii ''1704070800'' @ [10] @ ascii ''s'')"
  by (simp add: string_to_sign_def ascii_def utf8_char_def)

lemma send_signed:
  "send_to_feishu test_libs (ascii ''h'') (ascii ''s'') 1704070800 always_failing empty_report
     = Inr (Some signed_payload, deliver always_failing)"
  by (simp add: send_to_feishu_def str_int_now feishu_sign_def sign_key hmac_digest_def
        feishu_hmac_new_def and_then_def card_check_def empty_report_def signed_payload_def
        Let_def)
     (simp add: ascii_def)

theorem feishu_signature_witness:
  "ascii ''s'' \<noteq> []
   \<and> encode_utf8 (string_to_sign (ascii ''1704070800'') (ascii ''s''))
       = Some (ascii ''1704070800'' @ [10] @ ascii ''s'')
   \<and> feishu_sign test_libs (ascii ''1704070800'') (ascii ''s'')
       = Inr (b64encode test_libs
               (hmac_sha256 test_libs (ascii ''1704070800'' @ [10] @ ascii ''s'') []))
   \<and> feishu_sign test_libs (ascii ''1704070800'') [] = Inr []
   \<and> send_to_feishu test_libs (ascii ''h'') (ascii ''s'') 1704070800 always_failing empty_report
       = Inr (Some signed_payload, deliver always_failing)
   \<and> p_timestamp signed_payload = str_int 1704070800"
proof -
  have n: "ascii ''s'' \<noteq> []" by (simp add: ascii_def)
  from feishu_signature [of "ascii ''1704070800''" "ascii ''s''" test_libs
        "ascii ''1704070800'' @ [10] @ ascii ''s''"] n sign_key
  have a: "feishu_sign test_libs (ascii ''1704070800'') (ascii ''s'')
       = Inr (b64encode test_libs
               (hmac_sha256 test_libs (ascii ''1704070800'' @ [10] @ ascii ''s'') []))"
    by blast
  from feishu_signature [of "ascii ''1704070800''" "[]" test_libs]
  have b: "feishu_sign test_libs (ascii ''1704070800'') [] = Inr []"
    by blast
  from feishu_signature [where L=test_libs and url="ascii ''h''" and scrt="ascii ''s''"
        and now_s=1704070800 and snk=always_failing and rep=empty_report and pl=signed_payload
        and d="deliver always_failing"] send_signed
  have c: "p_timestamp signed_payload = str_int 1704070800"
    by blast
  from n sign_key a b send_signed c show ?thesis by blast
qed

theorem signature_data_counterexample:
  "feishu_sign test_libs (ascii ''1704070800'') (ascii ''s'')
     = Inr (b64encode test_libs
             (hmac_digest test_libs
               \<lparr>hmac_key = ascii ''1704070800'' @ [10] @ ascii ''s'', hmac_msg = []\<rparr>))
   \<and> ascii ''1704070800'' @ [10] @ ascii ''s'' \<noteq> []
   \<and> feishu_sign test_libs (ascii ''1704070800'') (ascii ''s'')
       \<noteq> Inr (b64encode test_libs
               (hmac_digest test_libs
                 \<lparr>hmac_key = ascii ''s'',
                  hmac_msg = ascii ''1704070800'' @ [10] @ ascii ''s''\<rparr>))"
  by (simp add: feishu_sign_def sign_key hmac_digest_def feishu_hmac_new_def test_libs_def
        test_b64_def test_hmac_def)
     (simp add: ascii_def)

end
